theory Spec2Isabelle
  imports Complex_Main "HOL-Library.Sublist"
begin

section \<open>Text primitives\<close>

text \<open>
  Python strings are modelled as \<open>string\<close>: a list of characters, one \<open>char\<close> per code
  point, over the code points 0..255. \<open>length\<close> is Python's \<open>len\<close>.
\<close>

datatype error =
    ValueError
  | JSONDecodeError
  | TypeError
  | AttributeError
  | OverflowError
  | ZeroDivisionError
  | ApiError string

text \<open>\<open>str.isspace\<close> on one character, which is also the class \<open>\s\<close> of \<open>re\<close>.\<close>

definition isspace :: "char \<Rightarrow> bool" where
  "isspace c = (c \<in> {CHR 0x09, CHR 0x0A, CHR 0x0B, CHR 0x0C, CHR 0x0D,
                      CHR 0x1C, CHR 0x1D, CHR 0x1E, CHR 0x1F, CHR 0x20,
                      CHR 0x85, CHR 0xA0})"

text \<open>\<open>s.strip()\<close>\<close>

definition strip :: "string \<Rightarrow> string" where
  "strip s = rev (dropWhile isspace (rev (dropWhile isspace s)))"

text \<open>\<open>s.split()\<close>: the maximal runs of non-whitespace characters, in order.\<close>

fun split_from :: "string \<Rightarrow> string \<Rightarrow> string list" where
  "split_from cur [] = (if cur = [] then [] else [cur])"
| "split_from cur (c # cs) =
     (if isspace c then (if cur = [] then split_from [] cs else cur # split_from [] cs)
      else split_from (cur @ [c]) cs)"

definition split :: "string \<Rightarrow> string list" where
  "split s = split_from [] s"

text \<open>\<open>sep.join(xs)\<close>\<close>

fun join :: "string \<Rightarrow> string list \<Rightarrow> string" where
  "join sep [] = []"
| "join sep [x] = x"
| "join sep (x # y # ys) = x @ sep @ join sep (y # ys)"

text \<open>\<open>re.sub(r"\s+", " ", s)\<close>: every maximal whitespace run becomes one space.\<close>

function collapse_ws :: "string \<Rightarrow> string" where
  "collapse_ws [] = []"
| "collapse_ws (c # cs) =
     (if isspace c then CHR '' '' # collapse_ws (dropWhile isspace cs)
      else c # collapse_ws cs)"
  by pat_completeness auto
termination
  by (relation "measure length") (auto simp: length_dropWhile_le less_Suc_eq_le)

text \<open>\<open>_normalize_whitespace\<close>; \<open>None\<close> is Python's \<open>None\<close>, which \<open>s or ""\<close> turns into \<open>""\<close>.\<close>

definition normalize_whitespace :: "string option \<Rightarrow> string" where
  "normalize_whitespace s =
     strip (collapse_ws (case s of None \<Rightarrow> [] | Some t \<Rightarrow> t))"

section \<open>Sentence segmenter\<close>

definition is_terminal :: "char \<Rightarrow> bool" where
  "is_terminal c = (c = CHR ''.'' \<or> c = CHR ''!'' \<or> c = CHR ''?'')"

text \<open>
  \<open>re.split(r"(?<=[.!?])\s+", s)\<close>. A separator starts at a whitespace character whose
  predecessor is a terminal mark and runs to the end of that whitespace run. The flag says
  that the scan is inside a separator; \<open>cur\<close> is the piece read so far.
\<close>

fun re_split_from :: "bool \<Rightarrow> string \<Rightarrow> string \<Rightarrow> string list" where
  "re_split_from insep cur [] = [cur]"
| "re_split_from insep cur (c # cs) =
     (if insep \<and> isspace c then re_split_from True cur cs
      else if isspace c \<and> cur \<noteq> [] \<and> is_terminal (last cur)
        then cur # re_split_from True [] cs
      else re_split_from False (cur @ [c]) cs)"

definition re_split_sentences :: "string \<Rightarrow> string list" where
  "re_split_sentences s = re_split_from False [] s"

text \<open>The merging loop of \<open>_split_into_sentences\<close>, on the state \<open>(merged, buf)\<close>.\<close>

fun merge_parts :: "string list \<Rightarrow> string \<Rightarrow> string list \<Rightarrow> string list" where
  "merge_parts merged buf [] = (if buf \<noteq> [] then merged @ [buf] else merged)"
| "merge_parts merged buf (p # ps) =
     (if length (split p) < 4 then
        (let buf' = strip (buf @ '' '' @ p) in
         if length (split buf') \<ge> 4 then merge_parts (merged @ [buf']) [] ps
         else merge_parts merged buf' ps)
      else
        (let merged' = (if buf \<noteq> [] then merged @ [buf] else merged)
         in merge_parts (merged' @ [strip p]) [] ps))"

text \<open>\<open>range(0, n, step)\<close> for a positive step.\<close>

definition range_step :: "nat \<Rightarrow> nat \<Rightarrow> nat list" where
  "range_step n step = map (\<lambda>j. j * step) [0 ..< (n + step - 1) div step]"

definition split_into_sentences :: "string \<Rightarrow> string list" where
  "split_into_sentences text =
     (let cleaned = normalize_whitespace (Some text) in
      if length (filter is_terminal cleaned) < max 1 (length cleaned div 1000) then
        (let words = split cleaned; chunk_size = 30
         in map (\<lambda>i. join '' '' (take chunk_size (drop i words)))
                (range_step (length words) chunk_size))
      else
        (let parts = re_split_sentences cleaned;
             merged = merge_parts [] [] parts
         in filter (\<lambda>p. p \<noteq> []) merged))"

section \<open>Chunk builder\<close>

text \<open>\<open>xs[-n:]\<close> for \<open>n > 0\<close>: the last \<open>n\<close> elements, all of them if there are fewer.\<close>

definition last_n :: "int \<Rightarrow> 'a list \<Rightarrow> 'a list" where
  "last_n n xs = drop (length xs - nat n) xs"

text \<open>The loop of \<open>_chunk_by_words\<close>, on the state \<open>(chunks, current, current_words)\<close>.\<close>

fun chunk_loop ::
  "int \<Rightarrow> int \<Rightarrow> string list \<Rightarrow> string list \<Rightarrow> int \<Rightarrow> string list \<Rightarrow> string list" where
  "chunk_loop target overlap chunks current current_words [] =
     (if current \<noteq> [] then chunks @ [join '' '' current] else chunks)"
| "chunk_loop target overlap chunks current current_words (sent # rest) =
     (let w = int (length (split sent)) in
      if current_words + w > target \<and> current \<noteq> [] then
        (let chunks' = chunks @ [join '' '' current] in
         if overlap > 0 then
           (let tail = join '' '' (last_n overlap (split (join '' '' current)))
            in chunk_loop target overlap chunks' [tail, sent]
                 (int (length (split tail)) + w) rest)
         else chunk_loop target overlap chunks' [sent] w rest)
      else chunk_loop target overlap chunks (current @ [sent]) (current_words + w) rest)"

definition chunk_by_words :: "string list \<Rightarrow> int \<Rightarrow> int \<Rightarrow> string list" where
  "chunk_by_words sentences target_chunk_words overlap_words =
     (let chunks = chunk_loop target_chunk_words overlap_words [] [] 0 sentences
      in map (\<lambda>c. normalize_whitespace (Some c))
             (filter (\<lambda>c. normalize_whitespace (Some c) \<noteq> []) chunks))"

section \<open>Budget allocator\<close>

text \<open>
  Python's \<open>float\<close> is the IEEE 754 binary64 format. A finite float is modelled by the
  rational number it denotes, and every operation rounds the exact result to the nearest
  representable value, ties to the even significand. \<open>to_double\<close> is that rounding;
  \<open>None\<close> stands for a result beyond the finite range.
\<close>

definition round_half_even :: "rat \<Rightarrow> int" where
  "round_half_even y =
     (let f = \<lfloor>y\<rfloor>; d = y - of_int f
      in if d < 1/2 then f else if d > 1/2 then f + 1 else if even f then f else f + 1)"

text \<open>The number of binary digits of a positive integer.\<close>

function bitlen :: "int \<Rightarrow> int" where
  "bitlen n = (if n \<le> 0 then 0 else 1 + bitlen (n div 2))"
  by pat_completeness auto
termination
  by (relation "measure nat") auto

text \<open>The exponent \<open>e\<close> with \<open>2 ^ e \<le> x < 2 ^ (e + 1)\<close>, for \<open>x > 0\<close>.\<close>

definition ilog2 :: "rat \<Rightarrow> int" where
  "ilog2 x =
     (let (p, q) = quotient_of x;
          e = bitlen p - bitlen q
      in if power_int 2 e \<le> x then e else e - 1)"

definition to_double :: "rat \<Rightarrow> rat option" where
  "to_double x =
     (if x = 0 then Some 0
      else
        (let e = max (ilog2 \<bar>x\<bar>) (- 1022);
             m = round_half_even (x / power_int 2 (e - 52))
         in if e \<ge> 1024 \<or> (e = 1023 \<and> \<bar>m\<bar> \<ge> 9007199254740992) then None
            else Some (of_int m * power_int 2 (e - 52))))"

datatype pyfloat = Finite rat | PosInf | NegInf | NaN

definition round_float :: "rat \<Rightarrow> pyfloat" where
  "round_float x =
     (case to_double x of Some r \<Rightarrow> Finite r | None \<Rightarrow> if x > 0 then PosInf else NegInf)"

text \<open>\<open>a * b\<close> on floats: no exception, an overflow gives an infinity.\<close>

fun fmul :: "pyfloat \<Rightarrow> pyfloat \<Rightarrow> pyfloat" where
  "fmul (Finite a) (Finite b) = round_float (a * b)"
| "fmul NaN y = NaN"
| "fmul x NaN = NaN"
| "fmul (Finite a) PosInf = (if a = 0 then NaN else if a > 0 then PosInf else NegInf)"
| "fmul (Finite a) NegInf = (if a = 0 then NaN else if a > 0 then NegInf else PosInf)"
| "fmul PosInf (Finite b) = (if b = 0 then NaN else if b > 0 then PosInf else NegInf)"
| "fmul NegInf (Finite b) = (if b = 0 then NaN else if b > 0 then NegInf else PosInf)"
| "fmul PosInf PosInf = PosInf"
| "fmul PosInf NegInf = NegInf"
| "fmul NegInf PosInf = NegInf"
| "fmul NegInf NegInf = PosInf"

text \<open>The conversion of an \<open>int\<close> operand to a float, as \<open>int * float\<close> does it.\<close>

definition int_to_float :: "int \<Rightarrow> error + pyfloat" where
  "int_to_float n =
     (case to_double (of_int n) of None \<Rightarrow> Inl OverflowError | Some r \<Rightarrow> Inr (Finite r))"

text \<open>\<open>a / b\<close> on two \<open>int\<close>s: the correctly rounded quotient.\<close>

definition true_div :: "int \<Rightarrow> int \<Rightarrow> error + pyfloat" where
  "true_div a b =
     (if b = 0 then Inl ZeroDivisionError
      else case to_double (of_int a / of_int b) of
             None \<Rightarrow> Inl OverflowError
           | Some r \<Rightarrow> Inr (Finite r))"

text \<open>\<open>int(x)\<close> on a float: truncation towards zero.\<close>

fun float_to_int :: "pyfloat \<Rightarrow> error + int" where
  "float_to_int (Finite x) = Inr (if x \<ge> 0 then \<lfloor>x\<rfloor> else \<lceil>x\<rceil>)"
| "float_to_int PosInf = Inl OverflowError"
| "float_to_int NegInf = Inl OverflowError"
| "float_to_int NaN = Inl ValueError"

text \<open>The literal \<open>1.2\<close>.\<close>

definition float_1_2 :: pyfloat where
  "float_1_2 = round_float (6 / 5)"

text \<open>
  \<open>ratio = chunk_words / total_words\<close> and \<open>int(final_target * ratio * 1.2)\<close>.
\<close>

definition float_alloc :: "int \<Rightarrow> int \<Rightarrow> int \<Rightarrow> error + int" where
  "float_alloc total_words chunk_words final_target =
     (case true_div chunk_words total_words of
        Inl e \<Rightarrow> Inl e
      | Inr ratio \<Rightarrow>
          (case int_to_float final_target of
             Inl e \<Rightarrow> Inl e
           | Inr ft \<Rightarrow> float_to_int (fmul (fmul ft ratio) float_1_2)))"

definition proportional_words :: "int \<Rightarrow> int \<Rightarrow> int \<Rightarrow> error + int" where
  "proportional_words total_words chunk_words final_target =
     (if total_words \<le> 0 then Inr (max 50 (min final_target 2000))
      else
        (case float_alloc total_words chunk_words final_target of
           Inl e \<Rightarrow> Inl e
         | Inr alloc \<Rightarrow> Inr (max 80 (min alloc (max 200 final_target)))))"

text \<open>The clamp of the specification: \<open>x\<close> limited to the interval from \<open>lo\<close> to \<open>hi\<close>.\<close>

definition clamp_spec :: "int \<Rightarrow> int \<Rightarrow> int \<Rightarrow> int" where
  "clamp_spec x lo hi = (if x < lo then lo else if hi < x then hi else x)"

section \<open>JSON values and the decoder\<close>

text \<open>
  The values \<open>json.loads\<close> returns. A \<open>dict\<close> is an association list in insertion
  order with distinct keys.
\<close>

datatype json =
    JNull
  | JBool bool
  | JInt int
  | JFloat pyfloat
  | JStr string
  | JArr "json list"
  | JObj "(string \<times> json) list"

type_synonym dict = "(string \<times> json) list"

text \<open>\<open>d[k] = v\<close>: an existing key keeps its place, a new key goes last.\<close>

fun dict_set :: "dict \<Rightarrow> string \<Rightarrow> json \<Rightarrow> dict" where
  "dict_set [] k v = [(k, v)]"
| "dict_set ((k', v') # d) k v =
     (if k' = k then (k, v) # d else (k', v') # dict_set d k v)"

text \<open>\<open>d.get(k, default)\<close>\<close>

definition dict_get :: "dict \<Rightarrow> string \<Rightarrow> json \<Rightarrow> json" where
  "dict_get d k dflt = (case map_of d k of None \<Rightarrow> dflt | Some v \<Rightarrow> v)"

text \<open>\<open>d.setdefault(k, default)\<close>, as a statement.\<close>

definition dict_setdefault :: "dict \<Rightarrow> string \<Rightarrow> json \<Rightarrow> dict" where
  "dict_setdefault d k dflt =
     (case map_of d k of None \<Rightarrow> dict_set d k dflt | Some v \<Rightarrow> d)"

text \<open>
  The decoder of the standard library, \<open>json.loads\<close> on a \<open>str\<close>, is not code of this
  repository; the definitions below follow its grammar: the whitespace is space, tab, line
  feed and carriage return; a number is \<open>-?(0|[1-9][0-9]*)(\.[0-9]+)?([eE][-+]?[0-9]+)?\<close>,
  an \<open>int\<close> when it has neither fraction nor exponent and the nearest float otherwise;
  \<open>NaN\<close>, \<open>Infinity\<close> and \<open>-Infinity\<close> are accepted; a string may not hold a raw
  control character; of a repeated key the last value is kept. An escape \<open>\uXXXX\<close> is
  decoded when it denotes a code point of the alphabet of this model (at most 255), and
  rejected otherwise. \<open>None\<close> stands for \<open>JSONDecodeError\<close>.
\<close>

definition json_ws :: "char \<Rightarrow> bool" where
  "json_ws c = (c = CHR 0x20 \<or> c = CHR 0x09 \<or> c = CHR 0x0A \<or> c = CHR 0x0D)"

definition skip_ws :: "string \<Rightarrow> string" where
  "skip_ws s = dropWhile json_ws s"

definition is_digit :: "char \<Rightarrow> bool" where
  "is_digit c = (c \<in> set ''0123456789'')"

definition digit_val :: "char \<Rightarrow> int" where
  "digit_val c = int (of_char c) - 48"

definition digits_val :: "string \<Rightarrow> int" where
  "digits_val ds = foldl (\<lambda>acc c. 10 * acc + digit_val c) 0 ds"

definition hex_val :: "char \<Rightarrow> int option" where
  "hex_val c =
     (if c \<in> set ''0123456789'' then Some (int (of_char c) - 48)
      else if c \<in> set ''abcdef'' then Some (int (of_char c) - 87)
      else if c \<in> set ''ABCDEF'' then Some (int (of_char c) - 55)
      else None)"

definition decode_u :: "string \<Rightarrow> char option" where
  "decode_u s =
     (case map hex_val s of
        [Some a, Some b, Some c, Some d] \<Rightarrow>
          (if a = 0 \<and> b = 0 then Some (char_of (16 * c + d)) else None)
      | _ \<Rightarrow> None)"

definition unescape :: "char \<Rightarrow> char option" where
  "unescape e =
     (if e = CHR 0x22 then Some (CHR 0x22)
      else if e = CHR 0x5C then Some (CHR 0x5C)
      else if e = CHR ''/'' then Some (CHR ''/'')
      else if e = CHR ''b'' then Some (CHR 0x08)
      else if e = CHR ''f'' then Some (CHR 0x0C)
      else if e = CHR ''n'' then Some (CHR 0x0A)
      else if e = CHR ''r'' then Some (CHR 0x0D)
      else if e = CHR ''t'' then Some (CHR 0x09)
      else None)"

text \<open>The body of a string, after its opening quote: the decoded string and what follows.\<close>

function scanstring :: "string \<Rightarrow> string \<Rightarrow> (string \<times> string) option" where
  "scanstring acc [] = None"
| "scanstring acc (c # cs) =
     (if c = CHR 0x22 then Some (acc, cs)
      else if c = CHR 0x5C then
        (case cs of
           [] \<Rightarrow> None
         | e # r \<Rightarrow>
             if e = CHR ''u'' then
               (case decode_u (take 4 r) of
                  None \<Rightarrow> None
                | Some ch \<Rightarrow> scanstring (acc @ [ch]) (drop 4 r))
             else
               (case unescape e of
                  None \<Rightarrow> None
                | Some ch \<Rightarrow> scanstring (acc @ [ch]) r))
      else if (of_char c :: nat) < 32 then None
      else scanstring (acc @ [c]) cs)"
  by pat_completeness auto
termination
  by (relation "measure (\<lambda>(acc, s). length s)") auto

definition scan_number :: "string \<Rightarrow> (json \<times> string) option" where
  "scan_number s =
     (let neg = (s \<noteq> [] \<and> hd s = CHR ''-'');
          s1 = (if neg then tl s else s);
          run = takeWhile is_digit s1;
          ip = (if run \<noteq> [] \<and> hd run = CHR ''0'' then ''0'' else run);
          s2 = drop (length ip) s1;
          fr = (if s2 \<noteq> [] \<and> hd s2 = CHR ''.'' then takeWhile is_digit (tl s2) else []);
          s3 = (if fr = [] then s2 else drop (length fr) (tl s2));
          has_e = (s3 \<noteq> [] \<and> (hd s3 = CHR ''e'' \<or> hd s3 = CHR ''E''));
          s3' = (if has_e then tl s3 else s3);
          eneg = (has_e \<and> s3' \<noteq> [] \<and> hd s3' = CHR ''-'');
          signed = (has_e \<and> s3' \<noteq> [] \<and> (hd s3' = CHR ''-'' \<or> hd s3' = CHR ''+''));
          s3'' = (if signed then tl s3' else s3');
          ex = (if has_e then takeWhile is_digit s3'' else []);
          s4 = (if ex = [] then s3 else drop (length ex) s3'');
          sgn = (if neg then - 1 else 1)
      in if ip = [] then None
         else if fr = [] \<and> ex = [] then Some (JInt (sgn * digits_val ip), s4)
         else
           (let mant = of_int (digits_val (ip @ fr)) / 10 ^ length fr;
                e10 = (if eneg then - digits_val ex else digits_val ex)
            in Some (JFloat (round_float (of_int sgn * mant * power_int 10 e10)), s4)))"

text \<open>
  \<open>scan_once\<close> reads one value, \<open>scan_members\<close> the members of an object from the
  opening quote of a key on, \<open>scan_elements\<close> the elements of an array from the first
  character of one on. The first argument bounds the number of nested calls.
\<close>

fun scan_once :: "nat \<Rightarrow> string \<Rightarrow> (json \<times> string) option"
  and scan_members :: "nat \<Rightarrow> dict \<Rightarrow> string \<Rightarrow> (json \<times> string) option"
  and scan_elements :: "nat \<Rightarrow> json list \<Rightarrow> string \<Rightarrow> (json \<times> string) option"
where
  "scan_once 0 s = None"
| "scan_once (Suc n) [] = None"
| "scan_once (Suc n) (c # cs) =
     (if c = CHR 0x22 then
        (case scanstring [] cs of None \<Rightarrow> None | Some (v, r) \<Rightarrow> Some (JStr v, r))
      else if c = CHR ''{'' then
        (case skip_ws cs of
           [] \<Rightarrow> None
         | c' # r \<Rightarrow>
             if c' = CHR ''}'' then Some (JObj [], r)
             else if c' = CHR 0x22 then scan_members n [] (c' # r)
             else None)
      else if c = CHR ''['' then
        (case skip_ws cs of
           [] \<Rightarrow> None
         | c' # r \<Rightarrow>
             if c' = CHR '']'' then Some (JArr [], r)
             else scan_elements n [] (c' # r))
      else if take 4 (c # cs) = ''null'' then Some (JNull, drop 3 cs)
      else if take 4 (c # cs) = ''true'' then Some (JBool True, drop 3 cs)
      else if take 5 (c # cs) = ''false'' then Some (JBool False, drop 4 cs)
      else
        (case scan_number (c # cs) of
           Some res \<Rightarrow> Some res
         | None \<Rightarrow>
             if take 3 (c # cs) = ''NaN'' then Some (JFloat NaN, drop 2 cs)
             else if take 8 (c # cs) = ''Infinity'' then Some (JFloat PosInf, drop 7 cs)
             else if take 9 (c # cs) = ''-Infinity'' then Some (JFloat NegInf, drop 8 cs)
             else None))"
| "scan_members 0 acc s = None"
| "scan_members (Suc n) acc [] = None"
| "scan_members (Suc n) acc (q # s) =
     (if q \<noteq> CHR 0x22 then None
      else
        (case scanstring [] s of
           None \<Rightarrow> None
         | Some (k, r) \<Rightarrow>
             (case skip_ws r of
                [] \<Rightarrow> None
              | c # r1 \<Rightarrow>
                  if c \<noteq> CHR '':'' then None
                  else
                    (case scan_once n (skip_ws r1) of
                       None \<Rightarrow> None
                     | Some (v, r2) \<Rightarrow>
                         (case skip_ws r2 of
                            [] \<Rightarrow> None
                          | c2 # r3 \<Rightarrow>
                              if c2 = CHR ''}'' then Some (JObj (dict_set acc k v), r3)
                              else if c2 = CHR '','' then
                                scan_members n (dict_set acc k v) (skip_ws r3)
                              else None)))))"
| "scan_elements 0 acc s = None"
| "scan_elements (Suc n) acc s =
     (case scan_once n s of
        None \<Rightarrow> None
      | Some (v, r) \<Rightarrow>
          (case skip_ws r of
             [] \<Rightarrow> None
           | c # r1 \<Rightarrow>
               if c = CHR '']'' then Some (JArr (acc @ [v]), r1)
               else if c = CHR '','' then scan_elements n (acc @ [v]) (skip_ws r1)
               else None))"

definition json_loads :: "string \<Rightarrow> json option" where
  "json_loads s =
     (case scan_once (Suc (length s)) (skip_ws s) of
        None \<Rightarrow> None
      | Some (v, r) \<Rightarrow> if skip_ws r = [] then Some v else None)"

section \<open>JSON extraction\<close>

definition lower :: "char \<Rightarrow> char" where
  "lower c =
     (if c \<in> set ''ABCDEFGHIJKLMNOPQRSTUVWXYZ'' then char_of (of_char c + (32::nat)) else c)"

text \<open>The pattern \<open>tag\<close>, in lower case, matches at the start of \<open>s\<close> under \<open>re.IGNORECASE\<close>.\<close>

definition istartswith :: "string \<Rightarrow> string \<Rightarrow> bool" where
  "istartswith tag s = (map lower (take (length tag) s) = tag)"

text \<open>
  The alternative \<open>\s*```$\<close> matched at the start of \<open>s\<close>: the text the match leaves.
  Without \<open>re.MULTILINE\<close> the anchor \<open>$\<close> holds at the end of the text and before a
  line feed that ends it.
\<close>

definition match_close :: "string \<Rightarrow> string option" where
  "match_close s =
     (let r = dropWhile isspace s in
      if take 3 r = ''```'' \<and> (drop 3 r = [] \<or> drop 3 r = [CHR 0x0A])
      then Some (drop 3 r) else None)"

text \<open>
  The scan of \<open>re.sub\<close> for the second alternative from a position on. What a match
  leaves is empty or one line feed, where no further match starts.
\<close>

fun sub_close :: "string \<Rightarrow> string" where
  "sub_close [] = []"
| "sub_close (c # cs) =
     (case match_close (c # cs) of Some r \<Rightarrow> r | None \<Rightarrow> c # sub_close cs)"

text \<open>
  \<open>re.sub(r"^TAG\s*|\s*```$", "", s, flags=re.IGNORECASE | re.DOTALL)\<close> for \<open>TAG\<close> one
  of \<open>```json\<close> and \<open>```\<close>: the first alternative can match at the start only, and the
  scan goes on behind it.
\<close>

definition sub_fence :: "string \<Rightarrow> string \<Rightarrow> string" where
  "sub_fence tag s =
     (if istartswith tag s then sub_close (dropWhile isspace (drop (length tag) s))
      else sub_close s)"

text \<open>
  \<open>re.search(r"\{.*\}", s, flags=re.DOTALL)\<close>: from the first opening brace to the last
  closing brace behind it.
\<close>

definition search_braces :: "string \<Rightarrow> string option" where
  "search_braces s =
     (case dropWhile (\<lambda>c. c \<noteq> CHR ''{'') s of
        [] \<Rightarrow> None
      | b # body \<Rightarrow>
          if CHR ''}'' \<in> set body
          then Some (b # rev (dropWhile (\<lambda>c. c \<noteq> CHR ''}'') (rev body)))
          else None)"

text \<open>
  \<open>re.sub(r"(?<!\\)'", '"', s)\<close>: a single quote becomes a double quote unless the
  character before it is a backslash. \<open>prev\<close> is the character before the position.
\<close>

fun repair_from :: "char option \<Rightarrow> string \<Rightarrow> string" where
  "repair_from prev [] = []"
| "repair_from prev (c # cs) =
     (if c = CHR 0x27 \<and> prev \<noteq> Some (CHR 0x5C) then CHR 0x22 else c)
       # repair_from (Some c) cs"

definition repair_quotes :: "string \<Rightarrow> string" where
  "repair_quotes s = repair_from None s"

text \<open>The text \<open>_extract_json\<close> hands to the decoder first.\<close>

definition strip_fences :: "string \<Rightarrow> string" where
  "strip_fences s =
     (let t1 = strip s;
          t2 = strip (sub_fence ''```json'' t1);
          t3 = strip (sub_fence ''```'' t2)
      in t3)"

text \<open>
  \<open>GeminiClient._extract_json\<close>, the decoder being a parameter \<open>loads\<close>. \<open>None\<close> as the
  argument is Python's \<open>None\<close>.
\<close>

definition extract_json_with ::
  "(string \<Rightarrow> json option) \<Rightarrow> string option \<Rightarrow> error + json" where
  "extract_json_with loads content =
     (case content of
        None \<Rightarrow> Inl ValueError
      | Some s \<Rightarrow>
          (let t = strip_fences s in
           case loads t of
             Some v \<Rightarrow> Inr v
           | None \<Rightarrow>
               (case search_braces t of
                  None \<Rightarrow> Inl ValueError
                | Some candidate \<Rightarrow>
                    (case loads candidate of
                       Some v \<Rightarrow> Inr v
                     | None \<Rightarrow>
                         (case loads (repair_quotes candidate) of
                            Some v \<Rightarrow> Inr v
                          | None \<Rightarrow> Inl JSONDecodeError)))))"

definition extract_json :: "string option \<Rightarrow> error + json" where
  "extract_json content = extract_json_with json_loads content"

section \<open>Section generator\<close>

text \<open>\<open>str(n)\<close> for an \<open>int\<close>, as an f-string formats it.\<close>

function digits_of :: "nat \<Rightarrow> string" where
  "digits_of n =
     (if n < 10 then [char_of (48 + n)]
      else digits_of (n div 10) @ [char_of (48 + n mod 10)])"
  by pat_completeness auto
termination
  by (relation "measure id") auto

definition str_int :: "int \<Rightarrow> string" where
  "str_int i = (if i < 0 then CHR ''-'' # digits_of (nat (- i)) else digits_of (nat i))"

definition build_prompt :: "string \<Rightarrow> int \<Rightarrow> int \<Rightarrow> string" where
  "build_prompt text summary_words takeaways_count =
     ''You are a precise writing assistant.'' @ [CHR 0x0A]
     @ ''Task:'' @ [CHR 0x0A]
     @ ''1) Provide a concise, faithful summary of the input text.'' @ [CHR 0x0A]
     @ ''2) List exactly '' @ str_int takeaways_count
     @ '' key takeaways as short bullet points.'' @ [CHR 0x0A]
     @ ''Length guidance: aim for about '' @ str_int summary_words @ '' words.'' @ [CHR 0x0A]
     @ ''Output JSON ONLY with keys: summary, key_takeaways (array).'' @ [CHR 0x0A]
     @ ''Text:'' @ [CHR 0x0A]
     @ text @ [CHR 0x0A]"

text \<open>
  The generation endpoint is outside the program. It is a parameter: a function from the
  calls made before, each a model name and a prompt, and the present model name and prompt
  to what the call does, which is to raise or to yield a response, of which the program
  reads the \<open>text\<close> attribute (\<open>None\<close> when the response has none). The state of the
  program is the list of the calls made.
\<close>

type_synonym llm = "(string \<times> string) list \<Rightarrow> string \<Rightarrow> string \<Rightarrow> error + string option"

text \<open>\<open>"key_takeaways" in s\<close> for a \<open>str\<close>: the substring test.\<close>

definition contains :: "string \<Rightarrow> string \<Rightarrow> bool" where
  "contains s sub = list_ex (\<lambda>i. take (length sub) (drop i s) = sub) [0 ..< Suc (length s)]"

text \<open>
  The normalisation in \<open>_call\<close>:
  \<open>if "key_takeaways" in data and data["key_takeaways"] is None: data["key_takeaways"] = []\<close>.
  On a list and on a string that hold the key the subscript raises \<open>TypeError\<close>, and on
  the other values that are no \<open>dict\<close> the membership test does.
\<close>

fun normalize_null :: "json \<Rightarrow> error + json" where
  "normalize_null (JObj d) =
     (if map_of d ''key_takeaways'' = Some JNull
      then Inr (JObj (dict_set d ''key_takeaways'' (JArr [])))
      else Inr (JObj d))"
| "normalize_null (JArr xs) =
     (if JStr ''key_takeaways'' \<in> set xs then Inl TypeError else Inr (JArr xs))"
| "normalize_null (JStr s) =
     (if contains s ''key_takeaways'' then Inl TypeError else Inr (JStr s))"
| "normalize_null v = Inl TypeError"

text \<open>The local function \<open>_call\<close> of \<open>generate_sections\<close>.\<close>

definition call_model ::
  "llm \<Rightarrow> string \<Rightarrow> string \<Rightarrow> (string \<times> string) list
     \<Rightarrow> (error + json) \<times> (string \<times> string) list" where
  "call_model api model prompt calls =
     (let calls' = calls @ [(model, prompt)] in
      case api calls model prompt of
        Inl e \<Rightarrow> (Inl e, calls')
      | Inr content \<Rightarrow>
          (case extract_json content of
             Inl e \<Rightarrow> (Inl e, calls')
           | Inr data \<Rightarrow> (normalize_null data, calls')))"

text \<open>\<open>kt = data.get("key_takeaways", [])\<close> and \<open>if not isinstance(kt, list): kt = []\<close>\<close>

definition takeaways_list :: "dict \<Rightarrow> json list" where
  "takeaways_list d =
     (case dict_get d ''key_takeaways'' (JArr []) of JArr xs \<Rightarrow> xs | _ \<Rightarrow> [])"

text \<open>The padding and the truncation after the retry.\<close>

definition pad_truncate :: "json list \<Rightarrow> int \<Rightarrow> json list" where
  "pad_truncate kt takeaways_count =
     (if int (length kt) < takeaways_count
        then kt @ replicate (nat (takeaways_count - int (length kt))) (JStr [])
      else if int (length kt) > takeaways_count then take (nat takeaways_count) kt
      else kt)"

text \<open>
  \<open>data.setdefault("summary", "")\<close> and \<open>data.setdefault("key_takeaways", [])\<close>.
\<close>

definition ensure_keys :: "dict \<Rightarrow> dict" where
  "ensure_keys d =
     dict_setdefault (dict_setdefault d ''summary'' (JStr [])) ''key_takeaways'' (JArr [])"

text \<open>
  \<open>GeminiClient.generate_sections\<close>. A value that is no \<open>dict\<close> has neither \<open>get\<close> nor
  \<open>setdefault\<close>: \<open>AttributeError\<close>.
\<close>

definition generate_sections ::
  "llm \<Rightarrow> string \<Rightarrow> string \<Rightarrow> int \<Rightarrow> int \<Rightarrow> (string \<times> string) list
     \<Rightarrow> (error + dict) \<times> (string \<times> string) list" where
  "generate_sections api text model summary_words takeaways_count calls =
     (let prompt = build_prompt text summary_words takeaways_count in
      case call_model api model prompt calls of
        (Inl e, calls1) \<Rightarrow> (Inl e, calls1)
      | (Inr data, calls1) \<Rightarrow>
          (case data of
             JObj d \<Rightarrow>
               if takeaways_count \<ge> 0 then
                 (let kt = takeaways_list d in
                  if int (length kt) \<noteq> takeaways_count then
                    (case call_model api model prompt calls1 of
                       (Inl e, calls2) \<Rightarrow> (Inl e, calls2)
                     | (Inr data2, calls2) \<Rightarrow>
                         (case data2 of
                            JObj d2 \<Rightarrow>
                              (let kt2 = pad_truncate (takeaways_list d2) takeaways_count
                               in (Inr (ensure_keys (dict_set d2 ''key_takeaways'' (JArr kt2))),
                                   calls2))
                          | _ \<Rightarrow> (Inl AttributeError, calls2)))
                  else (Inr (ensure_keys d), calls1))
               else (Inr (ensure_keys d), calls1)
           | _ \<Rightarrow> (Inl AttributeError, calls1)))"

section \<open>Map-reduce orchestrator\<close>

text \<open>
  \<open>summarize_document\<close> calls the module-level \<open>generate_sections\<close>. Here the generator
  is a parameter: a function from the generator calls made before and the present arguments
  to what the call does, which is to raise or to return a \<open>dict\<close>. The state is the list of
  the generator calls made.
\<close>

record request =
  req_text :: string
  req_model :: string
  req_summary_words :: int
  req_takeaways_count :: int

type_synonym generator = "request list \<Rightarrow> request \<Rightarrow> error + dict"

text \<open>The map step: the loop over the chunks, on the state \<open>(calls, mini_summaries)\<close>.\<close>

fun map_step ::
  "generator \<Rightarrow> string \<Rightarrow> int \<Rightarrow> int \<Rightarrow> request list \<Rightarrow> json list \<Rightarrow> string list
     \<Rightarrow> (error + json list) \<times> request list" where
  "map_step gen model total_words target_words calls mini_summaries [] =
     (Inr mini_summaries, calls)"
| "map_step gen model total_words target_words calls mini_summaries (c # cs) =
     (let cw = int (length (split c)) in
      case proportional_words total_words cw target_words of
        Inl e \<Rightarrow> (Inl e, calls)
      | Inr chunk_target \<Rightarrow>
          (let req = \<lparr>req_text = c, req_model = model,
                      req_summary_words = chunk_target, req_takeaways_count = 0\<rparr>
           in case gen calls req of
                Inl e \<Rightarrow> (Inl e, calls @ [req])
              | Inr mini \<Rightarrow>
                  map_step gen model total_words target_words (calls @ [req])
                    (mini_summaries @ [dict_get mini ''summary'' (JStr [])]) cs))"

text \<open>
  \<open>(s for s in mini_summaries if s.strip())\<close>: a value that is no \<open>str\<close> has no
  \<open>strip\<close>.
\<close>

fun kept_summaries :: "json list \<Rightarrow> error + string list" where
  "kept_summaries [] = Inr []"
| "kept_summaries (JStr s # rest) =
     (case kept_summaries rest of
        Inl e \<Rightarrow> Inl e
      | Inr kept \<Rightarrow> Inr (if strip s \<noteq> [] then s # kept else kept))"
| "kept_summaries (v # rest) = Inl AttributeError"

definition summarize_document ::
  "generator \<Rightarrow> string option \<Rightarrow> string \<Rightarrow> int \<Rightarrow> int \<Rightarrow> (error + dict) \<times> request list" where
  "summarize_document gen raw_text model target_words takeaways_count =
     (let text = normalize_whitespace raw_text;
          words = split text;
          n_words = int (length words)
      in if n_words < 60 then
           (let req = \<lparr>req_text = text, req_model = model,
                       req_summary_words = min target_words (max 30 n_words),
                       req_takeaways_count = takeaways_count\<rparr>
            in case gen [] req of
                 Inl e \<Rightarrow> (Inl e, [req])
               | Inr mini \<Rightarrow>
                   (Inr [(''summary'', JStr text),
                         (''key_takeaways'', dict_get mini ''key_takeaways'' (JArr []))],
                    [req]))
         else
           (let sentences = split_into_sentences text;
                chunks = chunk_by_words sentences 2400 200
            in case map_step gen model n_words target_words [] [] chunks of
                 (Inl e, calls) \<Rightarrow> (Inl e, calls)
               | (Inr mini_summaries, calls) \<Rightarrow>
                   (case kept_summaries mini_summaries of
                      Inl e \<Rightarrow> (Inl e, calls)
                    | Inr kept \<Rightarrow>
                        (let combined = join [CHR 0x0A, CHR 0x0A] kept;
                             req = \<lparr>req_text = combined, req_model = model,
                                     req_summary_words = target_words,
                                     req_takeaways_count = takeaways_count\<rparr>
                         in (gen calls req, calls @ [req])))))"

text \<open>The arguments of the generator call that \<open>summarize_document\<close> makes on a short input.\<close>

definition short_request :: "string option \<Rightarrow> string \<Rightarrow> int \<Rightarrow> int \<Rightarrow> request" where
  "short_request raw_text model target_words takeaways_count =
     \<lparr>req_text = normalize_whitespace raw_text, req_model = model,
      req_summary_words =
        min target_words (max 30 (int (length (split (normalize_whitespace raw_text))))),
      req_takeaways_count = takeaways_count\<rparr>"

section \<open>User interface: the Summarize button\<close>

text \<open>
  What the handler of the Summarize button in \<open>main\<close> of \<open>app.py\<close> does with the text it
  has, up to the check of the result's format: a warning and nothing else, an error message
  for an exception of \<open>summarize_document\<close>, an error message for a result that is empty
  or lacks a key, the display of the result.
\<close>

datatype ui_outcome =
    Warned
  | Failed error
  | Unexpected_format
  | Displayed dict

text \<open>
  The body of \<open>if st.button("Summarize", type="primary")\<close> to that point, with the
  generator calls it causes. The first test is \<open>not raw_text or not raw_text.strip()\<close>.
  The notice for a text of fewer than 20 words changes nothing in what follows.
\<close>

definition on_summarize ::
  "generator \<Rightarrow> string option \<Rightarrow> string \<Rightarrow> int \<Rightarrow> int \<Rightarrow> ui_outcome \<times> request list" where
  "on_summarize gen raw_text model target_words takeaways_count =
     (if (case raw_text of None \<Rightarrow> True | Some t \<Rightarrow> t = [] \<or> strip t = [])
      then (Warned, [])
      else
        (case summarize_document gen raw_text model target_words takeaways_count of
           (Inl e, calls) \<Rightarrow> (Failed e, calls)
         | (Inr result, calls) \<Rightarrow>
             if result = [] \<or> map_of result ''summary'' = None
                \<or> map_of result ''key_takeaways'' = None
             then (Unexpected_format, calls)
             else (Displayed result, calls)))"

section \<open>Properties of sentence lists\<close>

text \<open>
  In a list of sentences, every sentence of fewer than 4 words that is not the last is
  followed at once by a sentence of at least 4 words.
\<close>

definition short_then_long :: "string list \<Rightarrow> bool" where
  "short_then_long xs =
     (\<forall>i. Suc i < length xs \<longrightarrow> length (split (xs ! i)) < 4
            \<longrightarrow> 4 \<le> length (split (xs ! Suc i)))"

section \<open>Facts about the text primitives\<close>

lemma split_from_sep:
  "isspace c \<Longrightarrow> split_from cur (a @ c # b) = split_from cur a @ split_from [] b"
  by (induction a arbitrary: cur) auto

lemma split_from_word:
  "\<forall>c \<in> set w. \<not> isspace c \<Longrightarrow> split_from acc (w @ s) = split_from (acc @ w) s"
  by (induction w arbitrary: acc) auto

lemma split_from_spaces:
  "\<forall>c \<in> set t. isspace c \<Longrightarrow> split_from cur t = (if cur = [] then [] else [cur])"
  by (induction t arbitrary: cur) auto

lemma split_from_Nil_iff:
  "split_from cur s = [] \<longleftrightarrow> cur = [] \<and> (\<forall>c \<in> set s. isspace c)"
  by (induction s arbitrary: cur) auto

lemma split_Nil_iff: "split s = [] \<longleftrightarrow> (\<forall>c \<in> set s. isspace c)"
  by (simp add: split_def split_from_Nil_iff)

lemma split_from_dropWhile:
  "split_from [] (dropWhile isspace s) = split_from [] s"
  by (induction s) auto

lemma split_from_trailing:
  "\<forall>c \<in> set t. isspace c \<Longrightarrow> split_from cur (a @ t) = split_from cur a"
proof (cases t)
  case Nil
  then show ?thesis by simp
next
  case (Cons c t')
  assume sp: "\<forall>c \<in> set t. isspace c"
  with Cons have "isspace c" and "\<forall>c \<in> set t'. isspace c" by auto
  then show ?thesis
    using Cons by (simp add: split_from_sep split_from_spaces)
qed

lemma split_from_rstrip:
  "split_from cur (rev (dropWhile isspace (rev s))) = split_from cur s"
proof -
  have "s = rev (dropWhile isspace (rev s)) @ rev (takeWhile isspace (rev s))"
    by (metis rev_append rev_rev_ident takeWhile_dropWhile_id)
  moreover have "\<forall>c \<in> set (rev (takeWhile isspace (rev s))). isspace c"
    by (auto dest: set_takeWhileD)
  ultimately show ?thesis
    by (metis split_from_trailing)
qed

lemma split_strip: "split (strip s) = split s"
  by (simp add: split_def strip_def split_from_rstrip split_from_dropWhile)

lemma split_from_collapse: "split_from cur (collapse_ws s) = split_from cur s"
proof (induction s arbitrary: cur rule: collapse_ws.induct)
  case 1
  then show ?case by simp
next
  case (2 c cs)
  show ?case
  proof (cases "isspace c")
    case True
    have sp: "isspace (CHR '' '')" by (simp add: isspace_def)
    have "split_from [] (collapse_ws (dropWhile isspace cs)) = split_from [] cs"
      using 2(1)[OF True] by (simp add: split_from_dropWhile)
    then show ?thesis using True sp by simp
  next
    case False
    then show ?thesis using 2(2) by simp
  qed
qed

lemma split_normalize: "split (normalize_whitespace (Some s)) = split s"
  by (simp add: normalize_whitespace_def split_strip) (simp add: split_def split_from_collapse)

lemma split_normalize_None: "split (normalize_whitespace None) = []"
  by (simp add: normalize_whitespace_def strip_def split_def)

lemma split_join_Cons:
  "split (join '' '' (x # xs)) = split x @ concat (map split xs)"
proof (induction xs arbitrary: x)
  case Nil
  then show ?case by simp
next
  case (Cons y ys)
  have sp: "isspace (CHR '' '')" by (simp add: isspace_def)
  have "split (join '' '' (x # y # ys)) = split_from [] (x @ CHR '' '' # join '' '' (y # ys))"
    by (simp add: split_def)
  also have "\<dots> = split x @ split (join '' '' (y # ys))"
    using split_from_sep[OF sp] by (simp add: split_def)
  finally show ?case using Cons by simp
qed

lemma split_join: "split (join '' '' xs) = concat (map split xs)"
  by (cases xs) (simp_all add: split_join_Cons, simp add: split_def)

section \<open>Short inputs\<close>

lemma summarize_short:
  assumes "length (split (normalize_whitespace raw_text)) < 60"
  shows "summarize_document gen raw_text model target_words takeaways_count =
           (case gen [] (short_request raw_text model target_words takeaways_count) of
              Inl e \<Rightarrow> Inl e
            | Inr mini \<Rightarrow>
                Inr [(''summary'', JStr (normalize_whitespace raw_text)),
                     (''key_takeaways'', dict_get mini ''key_takeaways'' (JArr []))],
            [short_request raw_text model target_words takeaways_count])"
  using assms
  by (simp add: summarize_document_def short_request_def Let_def split: sum.splits)

lemma collapse_ws_spaces:
  "\<forall>c \<in> set s. isspace c \<Longrightarrow> collapse_ws s = [] \<or> collapse_ws s = '' ''"
proof (cases s)
  case Nil
  then show ?thesis by simp
next
  case (Cons c cs)
  assume "\<forall>c \<in> set s. isspace c"
  with Cons have c: "isspace c" and cs: "\<forall>x \<in> set cs. isspace x" by auto
  from cs have d: "dropWhile isspace cs = []" by simp
  have "collapse_ws (c # cs) = '' ''"
    by (simp only: collapse_ws.simps c d if_True)
  with Cons show ?thesis by simp
qed

lemma normalize_blank:
  assumes "raw_text = None \<or> (\<exists>s. raw_text = Some s \<and> (\<forall>c \<in> set s. isspace c))"
  shows "normalize_whitespace raw_text = []"
proof -
  have sp: "isspace (CHR '' '')" by (simp add: isspace_def)
  from assms show ?thesis
  proof
    assume "raw_text = None"
    then show ?thesis by (simp add: normalize_whitespace_def strip_def)
  next
    assume "\<exists>s. raw_text = Some s \<and> (\<forall>c \<in> set s. isspace c)"
    then obtain s where s: "raw_text = Some s" "\<forall>c \<in> set s. isspace c" by blast
    from collapse_ws_spaces[OF s(2)] show ?thesis
      using s(1) sp by (auto simp: normalize_whitespace_def strip_def)
  qed
qed

text \<open>
  C2. For an input of fewer than 60 words after normalisation, \<open>summarize_document\<close> makes
  exactly one generator call, with the normalised text and the requested takeaway count;
  when that call returns, the result's summary is the normalised text itself, whatever
  \<open>target_words\<close> is, and its takeaways are those of the call; when that call raises, the
  error is the result.
\<close>

theorem short_input_identity:
  assumes "length (split (normalize_whitespace raw_text)) < 60"
  shows "\<exists>req. snd (summarize_document gen raw_text model target_words takeaways_count) = [req]
           \<and> req_text req = normalize_whitespace raw_text
           \<and> req_takeaways_count req = takeaways_count
           \<and> (\<forall>mini. gen [] req = Inr mini \<longrightarrow>
                 (\<exists>d. fst (summarize_document gen raw_text model target_words takeaways_count)
                        = Inr d
                    \<and> map_of d ''summary'' = Some (JStr (normalize_whitespace raw_text))
                    \<and> map_of d ''key_takeaways''
                        = Some (dict_get mini ''key_takeaways'' (JArr []))))
           \<and> (\<forall>e. gen [] req = Inl e \<longrightarrow>
                 fst (summarize_document gen raw_text model target_words takeaways_count)
                   = Inl e)"
  unfolding summarize_short[OF assms]
  by (rule exI[of _ "short_request raw_text model target_words takeaways_count"])
     (simp add: short_request_def)

theorem short_input_identity_witness:
  "length (split (normalize_whitespace (Some ''  hello   world ''))) < 60
   \<and> (\<exists>req. snd (summarize_document
                  (\<lambda>calls r. Inr [(''summary'', JStr ''zz''), (''key_takeaways'', JArr [JStr ''k''])])
                  (Some ''  hello   world '') ''m'' 200 1) = [req]
         \<and> req_text req = ''hello world''
         \<and> req_takeaways_count req = 1
         \<and> (\<exists>d. fst (summarize_document
                  (\<lambda>calls r. Inr [(''summary'', JStr ''zz''), (''key_takeaways'', JArr [JStr ''k''])])
                  (Some ''  hello   world '') ''m'' 200 1) = Inr d
               \<and> map_of d ''summary'' = Some (JStr ''hello world'')
               \<and> map_of d ''key_takeaways'' = Some (JArr [JStr ''k''])))"
proof -
  have n: "normalize_whitespace (Some ''  hello   world '') = ''hello world''"
    by code_simp
  have h: "length (split (normalize_whitespace (Some ''  hello   world ''))) < 60"
    unfolding n by code_simp
  show ?thesis
    using h short_input_identity[OF h,
      of "\<lambda>calls r. Inr [(''summary'', JStr ''zz''), (''key_takeaways'', JArr [JStr ''k''])]"
         "''m''" 200 1]
    unfolding n by (auto simp: dict_get_def)
qed

lemma strip_blank:
  assumes "\<forall>c \<in> set s. isspace c"
  shows "strip s = []"
proof -
  from assms have "dropWhile isspace s = []" by simp
  then show ?thesis by (simp only: strip_def rev.simps dropWhile.simps)
qed

text \<open>
  C10. For a raw text that is \<open>None\<close>, empty or whitespace only, \<open>summarize_document\<close>
  rejects nothing and raises nothing of its own: the text normalises to the empty string,
  which has no word, and the short branch makes one generator call, with the empty text and
  the requested takeaway count; when that call returns, the result has the empty summary
  and the takeaways of the call, and when it raises, its error is the result. The rejection
  is in the user interface: on such a text the handler of the Summarize button warns and
  makes no generator call.
\<close>

theorem blank_input_not_rejected:
  assumes "raw_text = None \<or> (\<exists>s. raw_text = Some s \<and> (\<forall>c \<in> set s. isspace c))"
  shows "normalize_whitespace raw_text = []
         \<and> length (split (normalize_whitespace raw_text)) = 0
         \<and> (\<exists>req. snd (summarize_document gen raw_text model target_words takeaways_count)
                     = [req]
               \<and> req_text req = []
               \<and> req_model req = model
               \<and> req_summary_words req = min target_words 30
               \<and> req_takeaways_count req = takeaways_count
               \<and> fst (summarize_document gen raw_text model target_words takeaways_count)
                   = (case gen [] req of
                        Inl e \<Rightarrow> Inl e
                      | Inr mini \<Rightarrow>
                          Inr [(''summary'', JStr []),
                               (''key_takeaways'',
                                dict_get mini ''key_takeaways'' (JArr []))]))
         \<and> on_summarize gen raw_text model target_words takeaways_count = (Warned, [])"
proof -
  have n: "normalize_whitespace raw_text = []"
    by (rule normalize_blank[OF assms])
  have short: "length (split (normalize_whitespace raw_text)) < 60"
    by (simp add: n split_def)
  let ?req = "short_request raw_text model target_words takeaways_count"
  have req: "?req = \<lparr>req_text = [], req_model = model,
                      req_summary_words = min target_words 30,
                      req_takeaways_count = takeaways_count\<rparr>"
    by (simp add: short_request_def n split_def)
  have calls: "snd (summarize_document gen raw_text model target_words takeaways_count) = [?req]"
    by (simp add: summarize_short[OF short])
  have res: "fst (summarize_document gen raw_text model target_words takeaways_count)
               = (case gen [] ?req of
                    Inl e \<Rightarrow> Inl e
                  | Inr mini \<Rightarrow>
                      Inr [(''summary'', JStr []),
                           (''key_takeaways'', dict_get mini ''key_takeaways'' (JArr []))])"
    by (simp add: summarize_short[OF short] n split: sum.splits)
  have ui: "on_summarize gen raw_text model target_words takeaways_count = (Warned, [])"
    using assms by (auto simp: on_summarize_def strip_blank)
  have "\<exists>r. snd (summarize_document gen raw_text model target_words takeaways_count) = [r]
           \<and> req_text r = []
           \<and> req_model r = model
           \<and> req_summary_words r = min target_words 30
           \<and> req_takeaways_count r = takeaways_count
           \<and> fst (summarize_document gen raw_text model target_words takeaways_count)
               = (case gen [] r of
                    Inl e \<Rightarrow> Inl e
                  | Inr mini \<Rightarrow>
                      Inr [(''summary'', JStr []),
                           (''key_takeaways'', dict_get mini ''key_takeaways'' (JArr []))])"
    by (rule exI[of _ ?req]) (simp add: calls res, simp add: req)
  with n ui show ?thesis
    by (simp add: split_def)
qed

text \<open>
  On a text of a space, a line feed and a tab: with a generator that returns two takeaways
  and a summary, the result has the empty summary and the two takeaways; with a generator
  that raises, the result is its error; either way the one call has the empty text.
\<close>

theorem blank_input_not_rejected_witness:
  "isspace (CHR '' '') \<and> isspace (CHR 0x0A) \<and> isspace (CHR 0x09)
   \<and> normalize_whitespace (Some [CHR '' '', CHR 0x0A, CHR 0x09]) = []
   \<and> summarize_document
        (\<lambda>calls r. Inr [(''summary'', JStr ''zz''),
                         (''key_takeaways'', JArr [JStr ''k1'', JStr ''k2''])])
        (Some [CHR '' '', CHR 0x0A, CHR 0x09]) ''m'' 200 2
       = (Inr [(''summary'', JStr []),
               (''key_takeaways'', JArr [JStr ''k1'', JStr ''k2''])],
          [\<lparr>req_text = [], req_model = ''m'', req_summary_words = 30,
            req_takeaways_count = 2\<rparr>])
   \<and> summarize_document (\<lambda>calls r. Inl (ApiError ''down''))
        (Some [CHR '' '', CHR 0x0A, CHR 0x09]) ''m'' 200 2
       = (Inl (ApiError ''down''),
          [\<lparr>req_text = [], req_model = ''m'', req_summary_words = 30,
            req_takeaways_count = 2\<rparr>])
   \<and> on_summarize (\<lambda>calls r. Inl (ApiError ''down''))
        (Some [CHR '' '', CHR 0x0A, CHR 0x09]) ''m'' 200 2 = (Warned, [])"
proof -
  let ?raw = "Some [CHR '' '', CHR 0x0A, CHR 0x09]"
  let ?good = "\<lambda>(calls :: request list) (r :: request).
      (Inr [(''summary'', JStr ''zz''),
            (''key_takeaways'', JArr [JStr ''k1'', JStr ''k2''])] :: error + dict)"
  let ?bad = "\<lambda>(calls :: request list) (r :: request). (Inl (ApiError ''down'') :: error + dict)"
  have sp: "isspace (CHR '' '') \<and> isspace (CHR 0x0A) \<and> isspace (CHR 0x09)"
    by (simp add: isspace_def)
  then have h: "?raw = None \<or> (\<exists>s. ?raw = Some s \<and> (\<forall>c \<in> set s. isspace c))"
    by simp
  have a: "summarize_document ?good ?raw ''m'' 200 2
       = (Inr [(''summary'', JStr []),
               (''key_takeaways'', JArr [JStr ''k1'', JStr ''k2''])],
          [\<lparr>req_text = [], req_model = ''m'', req_summary_words = 30,
            req_takeaways_count = 2\<rparr>])"
    using blank_input_not_rejected[OF h, of ?good "''m''" 200 2]
    by (cases "summarize_document ?good ?raw ''m'' 200 2") (auto simp: dict_get_def)
  have b: "summarize_document ?bad ?raw ''m'' 200 2
       = (Inl (ApiError ''down''),
          [\<lparr>req_text = [], req_model = ''m'', req_summary_words = 30,
            req_takeaways_count = 2\<rparr>])"
    using blank_input_not_rejected[OF h, of ?bad "''m''" 200 2]
    by (cases "summarize_document ?bad ?raw ''m'' 200 2") auto
  have c: "on_summarize ?bad ?raw ''m'' 200 2 = (Warned, [])"
    using blank_input_not_rejected[OF h, of ?bad "''m''" 200 2] by simp
  have d: "normalize_whitespace ?raw = []"
    using blank_input_not_rejected[OF h, of ?bad "''m''" 200 2] by simp
  from sp a b c d show ?thesis
    by (intro conjI) simp_all
qed

section \<open>Facts about the budget allocator\<close>

lemma proportional_words_float_rounding: "proportional_words 3 1 250 = Inr 99"
  by code_simp

lemma proportional_words_example: "proportional_words 1000 500 200 = Inr 120"
  by code_simp

lemma proportional_words_left_assoc: "proportional_words 3 1 300 = Inr 120"
  by code_simp

lemma true_div_1_3: "true_div 1 3 = Inr (Finite (6004799503160661 / 18014398509481984))"
  by code_simp

lemma int_to_float_300: "int_to_float 300 = Inr (Finite 300)"
  by code_simp

lemma fmul_300_third:
  "fmul (Finite 300) (Finite (6004799503160661 / 18014398509481984)) = Finite 100"
  by code_simp

lemma float_1_2_value: "float_1_2 = Finite (5404319552844595 / 4503599627370496)"
  by code_simp

lemma fmul_100_cushion:
  "fmul (Finite 100) (Finite (5404319552844595 / 4503599627370496)) = Finite 120"
  by code_simp

text \<open>
  C3. For \<open>total_words > 0\<close> the allocator returns \<open>int(final_target * (chunk_words /
  total_words) * 1.2)\<close>, the quotient and the two products taken from left to right in
  floating point, clamped to the interval from 80 to \<open>max(200, final_target)\<close>, in which
  the result lies; for \<open>total_words \<le> 0\<close> it returns \<open>final_target\<close> clamped to the
  interval from 50 to 2000. It returns 120 for 1000, 500 and 200, and 200 for
  \<open>total_words = 0\<close> and \<open>final_target = 200\<close>.
\<close>

theorem proportional_words_clamp:
  "proportional_words total_words chunk_words final_target =
     (if total_words \<le> 0 then Inr (clamp_spec final_target 50 2000)
      else
        (case true_div chunk_words total_words of
           Inl e \<Rightarrow> Inl e
         | Inr ratio \<Rightarrow>
             (case int_to_float final_target of
                Inl e \<Rightarrow> Inl e
              | Inr ft \<Rightarrow>
                  (case float_to_int (fmul (fmul ft ratio) float_1_2) of
                     Inl e \<Rightarrow> Inl e
                   | Inr alloc \<Rightarrow> Inr (clamp_spec alloc 80 (max 200 final_target))))))
   \<and> (\<forall>r. proportional_words total_words chunk_words final_target = Inr r \<and> total_words > 0
          \<longrightarrow> 80 \<le> r \<and> r \<le> max 200 final_target)
   \<and> (\<forall>r. proportional_words total_words chunk_words final_target = Inr r \<and> total_words \<le> 0
          \<longrightarrow> 50 \<le> r \<and> r \<le> 2000)
   \<and> proportional_words 1000 500 200 = Inr 120
   \<and> proportional_words 0 chunk_words 200 = Inr 200"
proof (intro conjI)
  show "proportional_words total_words chunk_words final_target =
     (if total_words \<le> 0 then Inr (clamp_spec final_target 50 2000)
      else
        (case true_div chunk_words total_words of
           Inl e \<Rightarrow> Inl e
         | Inr ratio \<Rightarrow>
             (case int_to_float final_target of
                Inl e \<Rightarrow> Inl e
              | Inr ft \<Rightarrow>
                  (case float_to_int (fmul (fmul ft ratio) float_1_2) of
                     Inl e \<Rightarrow> Inl e
                   | Inr alloc \<Rightarrow> Inr (clamp_spec alloc 80 (max 200 final_target))))))"
    by (auto simp: proportional_words_def float_alloc_def clamp_spec_def split: sum.splits)
  show "\<forall>r. proportional_words total_words chunk_words final_target = Inr r \<and> total_words > 0
          \<longrightarrow> 80 \<le> r \<and> r \<le> max 200 final_target"
    by (auto simp: proportional_words_def split: sum.splits)
  show "\<forall>r. proportional_words total_words chunk_words final_target = Inr r \<and> total_words \<le> 0
          \<longrightarrow> 50 \<le> r \<and> r \<le> 2000"
    by (auto simp: proportional_words_def split: sum.splits)
  show "proportional_words 1000 500 200 = Inr 120"
    by (rule proportional_words_example)
  show "proportional_words 0 chunk_words 200 = Inr 200"
    by (simp add: proportional_words_def)
qed

text \<open>
  At 3, 1 and 300 the quotient is the float nearest to one third, the first product is
  100 and the second 120; with the products taken from right to left the result would be
  119.
\<close>

theorem proportional_words_clamp_witness:
  "(0::int) < 3
   \<and> true_div 1 3 = Inr (Finite (6004799503160661 / 18014398509481984))
   \<and> int_to_float 300 = Inr (Finite 300)
   \<and> fmul (Finite 300) (Finite (6004799503160661 / 18014398509481984)) = Finite 100
   \<and> fmul (Finite 100) float_1_2 = Finite 120
   \<and> proportional_words 3 1 300 = Inr 120
   \<and> (80::int) \<le> 120 \<and> (120::int) \<le> max 200 300
   \<and> proportional_words 3 1 250 = Inr 99"
proof -
  have "proportional_words 3 1 300 = Inr 120"
    using proportional_words_clamp[of 3 1 300]
    by (simp add: true_div_1_3 int_to_float_300 fmul_300_third float_1_2_value
        fmul_100_cushion clamp_spec_def del: fmul.simps)
  then show ?thesis
    using proportional_words_clamp[of 3 1 300] proportional_words_float_rounding
    by (simp add: true_div_1_3 int_to_float_300 fmul_300_third float_1_2_value
        fmul_100_cushion del: fmul.simps)
qed

section \<open>Pseudo-sentences\<close>

lemma split_from_clean:
  "\<forall>c \<in> set cur. \<not> isspace c \<Longrightarrow>
   \<forall>w \<in> set (split_from cur s). w \<noteq> [] \<and> (\<forall>c \<in> set w. \<not> isspace c)"
proof (induction s arbitrary: cur)
  case Nil
  then show ?case by auto
next
  case (Cons a s)
  show ?case
  proof (cases "isspace a")
    case True
    have "\<forall>w \<in> set (split_from [] s). w \<noteq> [] \<and> (\<forall>c \<in> set w. \<not> isspace c)"
      using Cons.IH[of "[]"] by simp
    then show ?thesis using True Cons.prems by auto
  next
    case False
    have "\<forall>c \<in> set (cur @ [a]). \<not> isspace c"
      using False Cons.prems by auto
    from Cons.IH[OF this] show ?thesis using False by simp
  qed
qed

lemma split_clean:
  "w \<in> set (split s) \<Longrightarrow> w \<noteq> [] \<and> (\<forall>c \<in> set w. \<not> isspace c)"
  using split_from_clean[of "[]" s] by (simp add: split_def)

lemma split_word:
  "w \<noteq> [] \<Longrightarrow> \<forall>c \<in> set w. \<not> isspace c \<Longrightarrow> split w = [w]"
  using split_from_word[of w "[]" "[]"] by (simp add: split_def)

lemma concat_split_words:
  "\<forall>w \<in> set ws. w \<noteq> [] \<and> (\<forall>c \<in> set w. \<not> isspace c) \<Longrightarrow> concat (map split ws) = ws"
  by (induction ws) (simp_all add: split_word)

lemma split_join_words:
  "set ws \<subseteq> set (split s) \<Longrightarrow> split (join '' '' ws) = ws"
  by (simp add: split_join) (rule concat_split_words, auto dest: split_clean)

lemma concat_slices:
  "concat (map (\<lambda>j. take k (drop (j * k) ws)) [0 ..< m]) = take (m * k) ws"
proof (induction m)
  case 0
  then show ?case by simp
next
  case (Suc m)
  have "take (Suc m * k) ws = take (m * k + k) ws"
    by (simp add: add.commute)
  also have "\<dots> = take (m * k) ws @ take k (drop (m * k) ws)"
    by (rule take_add)
  finally show ?case using Suc by simp
qed

lemma pseudo_mode:
  assumes "length (filter is_terminal (normalize_whitespace (Some text)))
             < max 1 (length (normalize_whitespace (Some text)) div 1000)"
  shows "split_into_sentences text =
           map (\<lambda>j. join '' '' (take 30 (drop (j * 30) (split (normalize_whitespace (Some text))))))
               [0 ..< (length (split (normalize_whitespace (Some text))) + 29) div 30]"
  using assms by (simp add: split_into_sentences_def Let_def range_step_def comp_def add.commute)


text \<open>
  C7. When the normalised text has fewer terminal marks than \<open>max(1, len // 1000)\<close>, the
  segmenter returns the whitespace-separated words of the text in consecutive groups of 30,
  each joined by single spaces: every group but the last has exactly 30 words, the last has
  from 1 to 30, and the groups in order are all the words. The empty text gives no sentence.
\<close>

theorem pseudo_sentences:
  assumes "length (filter is_terminal (normalize_whitespace (Some text)))
             < max 1 (length (normalize_whitespace (Some text)) div 1000)"
  shows "length (split_into_sentences text)
           = (length (split (normalize_whitespace (Some text))) + 29) div 30
         \<and> (\<forall>i < length (split_into_sentences text).
               split_into_sentences text ! i
                 = join '' '' (take 30 (drop (i * 30) (split (normalize_whitespace (Some text)))))
               \<and> split (split_into_sentences text ! i)
                 = take 30 (drop (i * 30) (split (normalize_whitespace (Some text))))
               \<and> 1 \<le> length (split (split_into_sentences text ! i))
               \<and> length (split (split_into_sentences text ! i)) \<le> 30
               \<and> (Suc i < length (split_into_sentences text)
                     \<longrightarrow> length (split (split_into_sentences text ! i)) = 30))
         \<and> concat (map split (split_into_sentences text))
             = split (normalize_whitespace (Some text))
         \<and> split_into_sentences [] = []"
proof -
  let ?ws = "split (normalize_whitespace (Some text))"
  let ?m = "(length ?ws + 29) div 30"
  let ?out = "split_into_sentences text"
  have out: "?out = map (\<lambda>j. join '' '' (take 30 (drop (j * 30) ?ws))) [0 ..< ?m]"
    by (rule pseudo_mode[OF assms])
  have len: "length ?out = ?m"
    by (simp add: out)
  have nth: "?out ! i = join '' '' (take 30 (drop (i * 30) ?ws))" if "i < length ?out" for i
    using that by (simp add: out)
  have sub: "set (take 30 (drop (i * 30) ?ws)) \<subseteq> set ?ws" for i
    by (meson set_drop_subset set_take_subset subset_trans)
  have words: "split (?out ! i) = take 30 (drop (i * 30) ?ws)" if "i < length ?out" for i
    using nth[OF that] split_join_words[OF sub[of i]] by simp
  have lo: "1 \<le> length (split (?out ! i))" if "i < length ?out" for i
  proof -
    from that len have "i * 30 < length ?ws" by linarith
    then show ?thesis using words[OF that] by simp
  qed
  have hi: "length (split (?out ! i)) \<le> 30" if "i < length ?out" for i
    using words[OF that] by simp
  have full: "length (split (?out ! i)) = 30" if "Suc i < length ?out" for i
  proof -
    from that have i: "i < length ?out" by simp
    from that len have "i * 30 + 30 \<le> length ?ws" by linarith
    then show ?thesis using words[OF i] by simp
  qed
  have "concat (map split ?out) = concat (map (\<lambda>j. take 30 (drop (j * 30) ?ws)) [0 ..< ?m])"
    using words len by (intro arg_cong[where f = concat] nth_equalityI) (simp_all add: out)
  also have "\<dots> = take (?m * 30) ?ws"
    by (rule concat_slices)
  also have "\<dots> = ?ws"
  proof -
    have "length ?ws \<le> ?m * 30" by linarith
    then show ?thesis by simp
  qed
  finally have cover: "concat (map split ?out) = ?ws" .
  have empty: "split_into_sentences [] = []"
    by (simp add: split_into_sentences_def normalize_whitespace_def strip_def split_def
        range_step_def)
  from len nth words lo hi full cover empty show ?thesis
    by (intro conjI allI impI) simp_all
qed

lemma list_of_three:
  assumes "length xs = 3"
  shows "xs = [xs ! 0, xs ! 1, xs ! 2]"
proof -
  from assms obtain a b c where "xs = [a, b, c]"
    by (metis length_0_conv length_Suc_conv numeral_3_eq_3)
  then show ?thesis by simp
qed

theorem pseudo_sentences_witness:
  "length (filter is_terminal (normalize_whitespace (Some ''aa ab ac ad ae af ag ah ai aj ak al am an ao ap aq ar as at  au av aw ax ay az ba bb bc bd be bf bg bh bi bj bk bl bm bn bo bp bq br bs bt bu bv bw bx by bz ca cb cc cd ce cf cg ch ci'')))
     < max 1 (length (normalize_whitespace (Some ''aa ab ac ad ae af ag ah ai aj ak al am an ao ap aq ar as at  au av aw ax ay az ba bb bc bd be bf bg bh bi bj bk bl bm bn bo bp bq br bs bt bu bv bw bx by bz ca cb cc cd ce cf cg ch ci'')) div 1000)
   \<and> length (split (normalize_whitespace (Some ''aa ab ac ad ae af ag ah ai aj ak al am an ao ap aq ar as at  au av aw ax ay az ba bb bc bd be bf bg bh bi bj bk bl bm bn bo bp bq br bs bt bu bv bw bx by bz ca cb cc cd ce cf cg ch ci''))) = 61
   \<and> split_into_sentences ''aa ab ac ad ae af ag ah ai aj ak al am an ao ap aq ar as at  au av aw ax ay az ba bb bc bd be bf bg bh bi bj bk bl bm bn bo bp bq br bs bt bu bv bw bx by bz ca cb cc cd ce cf cg ch ci''
       = [''aa ab ac ad ae af ag ah ai aj ak al am an ao ap aq ar as at au av aw ax ay az ba bb bc bd'',
          ''be bf bg bh bi bj bk bl bm bn bo bp bq br bs bt bu bv bw bx by bz ca cb cc cd ce cf cg ch'',
          ''ci'']
   \<and> length (split (split_into_sentences ''aa ab ac ad ae af ag ah ai aj ak al am an ao ap aq ar as at  au av aw ax ay az ba bb bc bd be bf bg bh bi bj bk bl bm bn bo bp bq br bs bt bu bv bw bx by bz ca cb cc cd ce cf cg ch ci'' ! 0)) = 30
   \<and> length (split (split_into_sentences ''aa ab ac ad ae af ag ah ai aj ak al am an ao ap aq ar as at  au av aw ax ay az ba bb bc bd be bf bg bh bi bj bk bl bm bn bo bp bq br bs bt bu bv bw bx by bz ca cb cc cd ce cf cg ch ci'' ! 1)) = 30
   \<and> length (split (split_into_sentences ''aa ab ac ad ae af ag ah ai aj ak al am an ao ap aq ar as at  au av aw ax ay az ba bb bc bd be bf bg bh bi bj bk bl bm bn bo bp bq br bs bt bu bv bw bx by bz ca cb cc cd ce cf cg ch ci'' ! 2)) = 1"
proof -
  let ?t = "''aa ab ac ad ae af ag ah ai aj ak al am an ao ap aq ar as at  au av aw ax ay az ba bb bc bd be bf bg bh bi bj bk bl bm bn bo bp bq br bs bt bu bv bw bx by bz ca cb cc cd ce cf cg ch ci''"
  have n: "normalize_whitespace (Some ?t) = ''aa ab ac ad ae af ag ah ai aj ak al am an ao ap aq ar as at au av aw ax ay az ba bb bc bd be bf bg bh bi bj bk bl bm bn bo bp bq br bs bt bu bv bw bx by bz ca cb cc cd ce cf cg ch ci''"
    by code_simp
  have h: "length (filter is_terminal (normalize_whitespace (Some ?t)))
     < max 1 (length (normalize_whitespace (Some ?t)) div 1000)"
    unfolding n by code_simp
  have w: "split ''aa ab ac ad ae af ag ah ai aj ak al am an ao ap aq ar as at au av aw ax ay az ba bb bc bd be bf bg bh bi bj bk bl bm bn bo bp bq br bs bt bu bv bw bx by bz ca cb cc cd ce cf cg ch ci''
             = [''aa'', ''ab'', ''ac'', ''ad'', ''ae'', ''af'', ''ag'', ''ah'', ''ai'', ''aj'', ''ak'', ''al'', ''am'', ''an'', ''ao'', ''ap'', ''aq'', ''ar'', ''as'', ''at'', ''au'', ''av'', ''aw'', ''ax'', ''ay'', ''az'', ''ba'', ''bb'', ''bc'', ''bd'', ''be'', ''bf'', ''bg'', ''bh'', ''bi'', ''bj'', ''bk'', ''bl'', ''bm'', ''bn'', ''bo'', ''bp'', ''bq'', ''br'', ''bs'', ''bt'', ''bu'', ''bv'', ''bw'', ''bx'', ''by'', ''bz'', ''ca'', ''cb'', ''cc'', ''cd'', ''ce'', ''cf'', ''cg'', ''ch'', ''ci'']"
    by code_simp
  note facts = pseudo_sentences[OF h, unfolded n w]
  from facts have l: "length (split_into_sentences ?t) = 3"
    by simp
  note each = facts[THEN conjunct2, THEN conjunct1, rule_format]
  have s0: "split_into_sentences ?t ! 0 = ''aa ab ac ad ae af ag ah ai aj ak al am an ao ap aq ar as at au av aw ax ay az ba bb bc bd''"
    using each[of 0, THEN conjunct1] l by simp
  have s1: "split_into_sentences ?t ! 1 = ''be bf bg bh bi bj bk bl bm bn bo bp bq br bs bt bu bv bw bx by bz ca cb cc cd ce cf cg ch''"
    using each[of 1, THEN conjunct1] l by simp
  have s2: "split_into_sentences ?t ! 2 = ''ci''"
    using each[of 2, THEN conjunct1] l by simp
  have c0: "length (split (split_into_sentences ?t ! 0)) = 30"
    using each[of 0, THEN conjunct2, THEN conjunct1] l by simp
  have c1: "length (split (split_into_sentences ?t ! 1)) = 30"
    using each[of 1, THEN conjunct2, THEN conjunct1] l by simp
  have c2: "length (split (split_into_sentences ?t ! 2)) = 1"
    using each[of 2, THEN conjunct2, THEN conjunct1] l by simp
  have "split_into_sentences ?t = [split_into_sentences ?t ! 0, split_into_sentences ?t ! 1,
          split_into_sentences ?t ! 2]"
    using l by (rule list_of_three)
  then have e: "split_into_sentences ?t = [''aa ab ac ad ae af ag ah ai aj ak al am an ao ap aq ar as at au av aw ax ay az ba bb bc bd'',
          ''be bf bg bh bi bj bk bl bm bn bo bp bq br bs bt bu bv bw bx by bz ca cb cc cd ce cf cg ch'',
          ''ci'']"
    by (simp only: s0 s1 s2)
  have len: "length (split (normalize_whitespace (Some ?t))) = 61"
    unfolding n w by simp
  from h len e c0 c1 c2 show ?thesis
    by (intro conjI)
qed

section \<open>Regular sentence splitting\<close>

lemma split_Nil: "split [] = []"
  by (simp add: split_def)

lemma split_Cons_space: "isspace c \<Longrightarrow> split (c # s) = split s"
  by (simp add: split_def)

lemma split_append_space:
  "isspace c \<Longrightarrow> split (a @ c # b) = split a @ split b"
  by (simp add: split_def split_from_sep)

lemma re_split_cover:
  "(\<forall>cur. concat (map split (re_split_from False cur s)) = split (cur @ s))
   \<and> concat (map split (re_split_from True [] s)) = split s"
proof (induction s)
  case Nil
  then show ?case by (simp add: split_Nil)
next
  case (Cons c cs)
  have a: "concat (map split (re_split_from False cur (c # cs))) = split (cur @ c # cs)" for cur
    using Cons by (simp add: split_append_space)
  have b: "concat (map split (re_split_from True [] (c # cs))) = split (c # cs)"
    using Cons by (simp add: split_Cons_space)
  from a b show ?case by blast
qed

lemma re_split_sentences_cover:
  "concat (map split (re_split_sentences s)) = split s"
  using re_split_cover[of s] by (simp add: re_split_sentences_def)

lemma split_buf:
  "split (strip (buf @ '' '' @ p)) = split buf @ split p"
proof -
  have "isspace (CHR '' '')" by (simp add: isspace_def)
  then show ?thesis by (simp add: split_strip split_append_space)
qed

lemma merge_parts_cover:
  "concat (map split (merge_parts merged buf ps))
     = concat (map split merged) @ split buf @ concat (map split ps)"
proof (induction ps arbitrary: merged buf)
  case Nil
  then show ?case by (simp add: split_Nil)
next
  case (Cons p ps)
  show ?case
  proof (cases "length (split p) < 4")
    case True
    then show ?thesis
      using split_buf[of buf p] by (simp add: Cons Let_def split_Nil)
  next
    case False
    then show ?thesis
      by (simp add: Cons Let_def split_strip split_Nil)
  qed
qed

lemma concat_split_filter:
  "concat (map split (filter (\<lambda>p. p \<noteq> []) xs)) = concat (map split xs)"
  by (induction xs) (simp_all add: split_Nil)

lemma regular_mode:
  assumes "\<not> length (filter is_terminal (normalize_whitespace (Some text)))
               < max 1 (length (normalize_whitespace (Some text)) div 1000)"
  shows "split_into_sentences text =
           filter (\<lambda>p. p \<noteq> [])
             (merge_parts [] [] (re_split_sentences (normalize_whitespace (Some text))))"
  using assms by (simp add: split_into_sentences_def Let_def)

lemma split_nonempty: "0 < length (split s) \<Longrightarrow> s \<noteq> []"
  by (auto simp: split_Nil)

lemma merge_parts_nonempty:
  "[] \<notin> set merged \<Longrightarrow> [] \<notin> set (merge_parts merged buf ps)"
proof (induction ps arbitrary: merged buf)
  case Nil
  then show ?case by simp
next
  case (Cons p ps)
  show ?case
  proof (cases "length (split p) < 4")
    case True
    let ?b = "strip (buf @ '' '' @ p)"
    show ?thesis
    proof (cases "4 \<le> length (split ?b)")
      case long: True
      then have "?b \<noteq> []" by (auto simp: split_Nil)
      with Cons.prems have "[] \<notin> set (merged @ [?b])" by simp
      from Cons.IH[OF this] show ?thesis using True long by (simp add: Let_def)
    next
      case False
      with Cons.IH[OF Cons.prems] show ?thesis using True by (simp add: Let_def)
    qed
  next
    case False
    then have "0 < length (split (strip p))" by (auto simp: split_strip)
    then have "strip p \<noteq> []" by (rule split_nonempty)
    with Cons.prems have "[] \<notin> set ((if buf \<noteq> [] then merged @ [buf] else merged) @ [strip p])"
      by simp
    from Cons.IH[OF this] show ?thesis using False by (simp add: Let_def)
  qed
qed

lemma short_then_long_snoc:
  assumes "short_then_long xs" and "xs \<noteq> [] \<longrightarrow> 4 \<le> length (split (last xs))"
  shows "short_then_long (xs @ [y])"
  unfolding short_then_long_def
proof (intro allI impI)
  fix i
  assume i: "Suc i < length (xs @ [y])" and short: "length (split ((xs @ [y]) ! i)) < 4"
  show "4 \<le> length (split ((xs @ [y]) ! Suc i))"
  proof (cases "Suc i < length xs")
    case True
    with assms(1) short show ?thesis
      by (simp add: short_then_long_def nth_append)
  next
    case False
    with i have e: "Suc i = length xs" by simp
    then have ne: "xs \<noteq> []" by auto
    from e have "length xs = Suc i" by simp
    with ne have "(xs @ [y]) ! i = last xs"
      by (simp add: nth_append last_conv_nth)
    with ne assms(2) short show ?thesis by simp
  qed
qed

lemma short_then_long_snoc_long:
  assumes "short_then_long xs" and "4 \<le> length (split y)"
  shows "short_then_long (xs @ [y])"
  unfolding short_then_long_def
proof (intro allI impI)
  fix i
  assume i: "Suc i < length (xs @ [y])" and short: "length (split ((xs @ [y]) ! i)) < 4"
  show "4 \<le> length (split ((xs @ [y]) ! Suc i))"
  proof (cases "Suc i < length xs")
    case True
    with assms(1) short show ?thesis
      by (simp add: short_then_long_def nth_append)
  next
    case False
    with i have "Suc i = length xs" by simp
    with assms(2) show ?thesis by (simp add: nth_append)
  qed
qed

lemma merge_parts_short_then_long:
  assumes "short_then_long merged"
    and "merged \<noteq> [] \<longrightarrow> 4 \<le> length (split (last merged))"
    and "length (split buf) < 4"
  shows "short_then_long (merge_parts merged buf ps)"
  using assms
proof (induction ps arbitrary: merged buf)
  case Nil
  then show ?case by (simp add: short_then_long_snoc)
next
  case (Cons p ps)
  have empty: "length (split []) < 4" by (simp add: split_Nil)
  show ?case
  proof (cases "length (split p) < 4")
    case True
    let ?b = "strip (buf @ '' '' @ p)"
    show ?thesis
    proof (cases "4 \<le> length (split ?b)")
      case long: True
      have "short_then_long (merged @ [?b])"
        using Cons.prems(1) long by (rule short_then_long_snoc_long)
      from Cons.IH[OF this _ empty] long show ?thesis
        using True by (simp add: Let_def)
    next
      case False
      then have "length (split ?b) < 4" by simp
      from Cons.IH[OF Cons.prems(1,2) this] show ?thesis
        using True False by (simp add: Let_def)
    qed
  next
    case False
    let ?m = "if buf \<noteq> [] then merged @ [buf] else merged"
    have long: "4 \<le> length (split (strip p))"
      using False by (simp add: split_strip)
    have "short_then_long ?m"
      using Cons.prems(1,2) by (simp add: short_then_long_snoc)
    then have "short_then_long (?m @ [strip p])"
      using long by (rule short_then_long_snoc_long)
    from Cons.IH[OF this _ empty] long show ?thesis
      using False by (simp add: Let_def)
  qed
qed

text \<open>
  C5, as the code has it. In the regular mode every returned sentence is non-empty, the
  words of the returned sentences in order are the words of the input, and a returned
  sentence of fewer than 4 words is the final one or is followed at once by a sentence of
  at least 4 words.
\<close>

theorem regular_sentences:
  assumes "\<not> length (filter is_terminal (normalize_whitespace (Some text)))
               < max 1 (length (normalize_whitespace (Some text)) div 1000)"
  shows "(\<forall>s \<in> set (split_into_sentences text). s \<noteq> [])
         \<and> concat (map split (split_into_sentences text))
             = split (normalize_whitespace (Some text))
         \<and> (\<forall>i. Suc i < length (split_into_sentences text)
                \<longrightarrow> length (split (split_into_sentences text ! i)) < 4
                \<longrightarrow> 4 \<le> length (split (split_into_sentences text ! Suc i)))"
proof -
  let ?parts = "re_split_sentences (normalize_whitespace (Some text))"
  let ?merged = "merge_parts [] [] ?parts"
  have out: "split_into_sentences text = filter (\<lambda>p. p \<noteq> []) ?merged"
    by (rule regular_mode[OF assms])
  have ne: "\<forall>s \<in> set (split_into_sentences text). s \<noteq> []"
    by (simp add: out)
  have cover: "concat (map split (split_into_sentences text))
                 = split (normalize_whitespace (Some text))"
    by (simp add: out concat_split_filter merge_parts_cover re_split_sentences_cover split_Nil)
  have "[] \<notin> set ?merged"
    by (rule merge_parts_nonempty) simp
  then have "\<forall>p \<in> set ?merged. p \<noteq> []"
    by blast
  then have "filter (\<lambda>p. p \<noteq> []) ?merged = ?merged"
    by (rule filter_True)
  then have same: "split_into_sentences text = ?merged"
    by (simp only: out)
  have "short_then_long ?merged"
    by (rule merge_parts_short_then_long) (simp_all add: short_then_long_def split_Nil)
  then have "short_then_long (split_into_sentences text)"
    by (simp only: same)
  with ne cover show ?thesis
    by (simp add: short_then_long_def)
qed


text \<open>
  On \<open>Hi. This is a long sentence. A b. C d. End.\<close> the first sentence has one word
  and the second five; the two fragments of two words are merged into one sentence of four,
  and the last fragment stays alone.
\<close>

theorem regular_sentences_witness:
  "\<not> length (filter is_terminal (normalize_whitespace (Some ''Hi. This is a long sentence. A b. C d. End.'')))
       < max 1 (length (normalize_whitespace (Some ''Hi. This is a long sentence. A b. C d. End.'')) div 1000)
   \<and> split_into_sentences ''Hi. This is a long sentence. A b. C d. End.''
       = [''Hi.'', ''This is a long sentence.'', ''A b. C d.'', ''End.'']
   \<and> length (split (split_into_sentences ''Hi. This is a long sentence. A b. C d. End.'' ! 0)) < 4
   \<and> 4 \<le> length (split (split_into_sentences ''Hi. This is a long sentence. A b. C d. End.'' ! Suc 0))
   \<and> concat (map split (split_into_sentences ''Hi. This is a long sentence. A b. C d. End.''))
       = [''Hi.'', ''This'', ''is'', ''a'', ''long'', ''sentence.'', ''A'', ''b.'', ''C'', ''d.'',
          ''End.'']"
proof -
  let ?t = "''Hi. This is a long sentence. A b. C d. End.''"
  have n: "normalize_whitespace (Some ?t) = ?t"
    by code_simp
  have h: "\<not> length (filter is_terminal (normalize_whitespace (Some ?t)))
       < max 1 (length (normalize_whitespace (Some ?t)) div 1000)"
    unfolding n by code_simp
  have w: "split ?t = [''Hi.'', ''This'', ''is'', ''a'', ''long'', ''sentence.'', ''A'', ''b.'',
      ''C'', ''d.'', ''End.'']"
    by code_simp
  have e: "split_into_sentences ?t
       = [''Hi.'', ''This is a long sentence.'', ''A b. C d.'', ''End.'']"
    by code_simp
  have short: "length (split (split_into_sentences ?t ! 0)) < 4"
    unfolding e by code_simp
  have len: "Suc 0 < length (split_into_sentences ?t)"
    unfolding e by simp
  note facts = regular_sentences[OF h]
  from facts len short have long: "4 \<le> length (split (split_into_sentences ?t ! Suc 0))"
    by blast
  from facts have cover: "concat (map split (split_into_sentences ?t))
       = [''Hi.'', ''This'', ''is'', ''a'', ''long'', ''sentence.'', ''A'', ''b.'', ''C'', ''d.'',
          ''End.'']"
    unfolding n w by simp
  from h e short long cover show ?thesis
    by (intro conjI)
qed

text \<open>
  C5, as it is stated, fails: in the regular mode the text \<open>Hi. This is a long sentence.\<close>
  gives two sentences, of which the first, which is not the final one, has one word.
\<close>

theorem regular_sentences_counterexample:
  "\<not> length (filter is_terminal (normalize_whitespace (Some ''Hi. This is a long sentence.'')))
       < max 1 (length (normalize_whitespace (Some ''Hi. This is a long sentence.'')) div 1000)
   \<and> split_into_sentences ''Hi. This is a long sentence.''
       = [''Hi.'', ''This is a long sentence.'']
   \<and> length (split (split_into_sentences ''Hi. This is a long sentence.'' ! 0)) = 1
   \<and> Suc 0 < length (split_into_sentences ''Hi. This is a long sentence.'')"
  by code_simp

section \<open>Takeaway count of the section generator\<close>

lemma map_of_dict_set_same: "map_of (dict_set d k v) k = Some v"
  by (induction d) auto

lemma map_of_dict_set_other: "k' \<noteq> k \<Longrightarrow> map_of (dict_set d k v) k' = map_of d k'"
  by (induction d) auto

lemma map_of_dict_setdefault:
  "map_of (dict_setdefault d k v) k' =
     (if k' = k \<and> map_of d k = None then Some v else map_of d k')"
  by (auto simp: dict_setdefault_def map_of_dict_set_same map_of_dict_set_other
      split: option.splits)

lemma map_of_ensure_keys_takeaways:
  "map_of (ensure_keys d) ''key_takeaways'' =
     (case map_of d ''key_takeaways'' of None \<Rightarrow> Some (JArr []) | Some v \<Rightarrow> Some v)"
  by (simp add: ensure_keys_def map_of_dict_setdefault split: option.splits)

lemma length_pad_truncate:
  "0 \<le> k \<Longrightarrow> int (length (pad_truncate kt k)) = k"
  by (auto simp: pad_truncate_def)

lemma takeaways_list_positive:
  assumes "0 < length (takeaways_list d)"
  shows "map_of d ''key_takeaways'' = Some (JArr (takeaways_list d))"
  using assms
  by (auto simp: takeaways_list_def dict_get_def split: option.splits json.splits)

text \<open>
  For a positive requested count the returned \<open>key_takeaways\<close> is a list of that length.
\<close>

lemma generate_sections_count_positive:
  assumes "0 < k"
    and "fst (generate_sections api text model summary_words k calls) = Inr d"
  shows "\<exists>xs. map_of d ''key_takeaways'' = Some (JArr xs) \<and> int (length xs) = k"
proof -
  let ?prompt = "build_prompt text summary_words k"
  obtain r1 calls1 where c1: "call_model api model ?prompt calls = (r1, calls1)"
    by (cases "call_model api model ?prompt calls")
  from assms(2) c1 obtain d1 where r1: "r1 = Inr (JObj d1)"
    by (auto simp: generate_sections_def Let_def split: sum.splits json.splits)
  show ?thesis
  proof (cases "int (length (takeaways_list d1)) = k")
    case True
    with assms(1) have pos: "0 < length (takeaways_list d1)" by auto
    from assms(2) c1 r1 True assms(1) have "d = ensure_keys d1"
      by (simp add: generate_sections_def Let_def)
    with takeaways_list_positive[OF pos] True show ?thesis
      by (simp add: map_of_ensure_keys_takeaways)
  next
    case False
    obtain r2 calls2 where c2: "call_model api model ?prompt calls1 = (r2, calls2)"
      by (cases "call_model api model ?prompt calls1")
    from assms c1 r1 False c2 obtain d2 where
      d: "d = ensure_keys (dict_set d2 ''key_takeaways''
              (JArr (pad_truncate (takeaways_list d2) k)))"
      by (auto simp: generate_sections_def Let_def split: sum.splits json.splits)
    from assms(1) have "int (length (pad_truncate (takeaways_list d2) k)) = k"
      by (intro length_pad_truncate) simp
    with d show ?thesis
      by (simp add: map_of_ensure_keys_takeaways map_of_dict_set_same)
  qed
qed

text \<open>
  C1 fails on the code for the count 0, which every map step requests. The first response
  has the string \<open>none\<close> as \<open>key_takeaways\<close>; the local copy is set to the empty list, whose
  length is the count, so there is no retry and the response's own value is returned: a
  string, not a list of length 0.
\<close>

theorem generate_sections_zero_count_not_a_list:
  \<open>generate_sections
     (\<lambda>calls model prompt. Inr (Some ''{"summary": "s", "key_takeaways": "none"}''))
     ''chunk'' ''gemini-1.5-flash'' 100 0 []
   = (Inr [(''summary'', JStr ''s''), (''key_takeaways'', JStr ''none'')],
      [(''gemini-1.5-flash'', build_prompt ''chunk'' 100 0)])\<close>
  by code_simp

section \<open>Facts about the chunk builder\<close>

lemma length_last_n: "0 \<le> n \<Longrightarrow> int (length (last_n n xs)) \<le> n"
  by (simp add: last_n_def)

lemma set_last_n: "set (last_n n xs) \<subseteq> set xs"
  by (simp add: last_n_def set_drop_subset)

lemma split_tail:
  "split (join '' '' (last_n n (split s))) = last_n n (split s)"
  by (rule split_join_words) (rule set_last_n)

lemma sublist_concat_member:
  "x \<in> set xs \<Longrightarrow> sublist (f x) (concat (map f xs))"
proof -
  assume "x \<in> set xs"
  then obtain ys zs where "xs = ys @ x # zs"
    by (meson split_list)
  then have "concat (map f xs) = concat (map f ys) @ f x @ concat (map f zs)"
    by simp
  then show ?thesis
    unfolding sublist_def by blast
qed

lemma chunk_loop_close:
  assumes "current_words + int (length (split sent)) > target" and "current \<noteq> []"
  shows "chunk_loop target overlap chunks current current_words (sent # rest)
           = chunk_loop target overlap (chunks @ [join '' '' current])
               (if overlap > 0
                then [join '' '' (last_n overlap (split (join '' '' current))), sent]
                else [sent])
               (if overlap > 0
                then int (length (split (join '' ''
                       (last_n overlap (split (join '' '' current))))))
                     + int (length (split sent))
                else int (length (split sent)))
               rest"
  using assms by (auto simp: Let_def)

lemma chunk_loop_grow:
  assumes "\<not> (current_words + int (length (split sent)) > target \<and> current \<noteq> [])"
  shows "chunk_loop target overlap chunks current current_words (sent # rest)
           = chunk_loop target overlap chunks (current @ [sent])
               (current_words + int (length (split sent))) rest"
  using assms by (auto simp: Let_def)

lemma chunk_loop_bound:
  assumes "0 \<le> overlap" and "overlap < target"
    and "current_words = int (length (concat (map split current)))"
    and "set rest \<subseteq> S"
    and "current \<noteq> [] \<longrightarrow> (\<exists>s \<in> S. current_words \<le> target + int (length (split s)))"
    and "\<forall>c \<in> set chunks. \<exists>s \<in> S. int (length (split c)) \<le> target + int (length (split s))"
  shows "\<forall>c \<in> set (chunk_loop target overlap chunks current current_words rest).
           \<exists>s \<in> S. int (length (split c)) \<le> target + int (length (split s))"
  using assms(3-6)
proof (induction rest arbitrary: chunks current current_words)
  case Nil
  then show ?case by (auto simp: split_join)
next
  case (Cons sent rest)
  let ?w = "int (length (split sent))"
  from Cons.prems(2) have sent: "sent \<in> S" and rest: "set rest \<subseteq> S" by auto
  show ?case
  proof (cases "current_words + ?w > target \<and> current \<noteq> []")
    case True
    let ?chunks = "chunks @ [join '' '' current]"
    have closed: "\<forall>c \<in> set ?chunks.
        \<exists>s \<in> S. int (length (split c)) \<le> target + int (length (split s))"
      using Cons.prems(1,3,4) True by (auto simp: split_join)
    show ?thesis
    proof (cases "overlap > 0")
      case pos: True
      let ?tail = "join '' '' (last_n overlap (split (join '' '' current)))"
      have len: "int (length (split ?tail)) \<le> overlap"
        using assms(1) by (simp add: split_tail length_last_n)
      have cw: "int (length (split ?tail)) + ?w
                  = int (length (concat (map split [?tail, sent])))"
        by simp
      have b: "[?tail, sent] \<noteq> [] \<longrightarrow>
          (\<exists>s \<in> S. int (length (split ?tail)) + ?w \<le> target + int (length (split s)))"
        using len assms(2) sent by (intro impI bexI[of _ sent]) linarith+
      from Cons.IH[OF cw rest b closed] show ?thesis
        using True pos by (simp add: chunk_loop_close del: chunk_loop.simps)
    next
      case zero: False
      have cw: "?w = int (length (concat (map split [sent])))"
        by simp
      have b: "[sent] \<noteq> [] \<longrightarrow> (\<exists>s \<in> S. ?w \<le> target + int (length (split s)))"
        using assms(1,2) sent by (intro impI bexI[of _ sent]) linarith+
      from Cons.IH[OF cw rest b closed] show ?thesis
        using True zero by (simp add: chunk_loop_close del: chunk_loop.simps)
    qed
  next
    case False
    have cw: "current_words + ?w = int (length (concat (map split (current @ [sent]))))"
      using Cons.prems(1) by simp
    have "current_words + ?w \<le> target + ?w"
    proof (cases "current = []")
      case True
      with Cons.prems(1) have "current_words = 0" by simp
      with assms(1,2) show ?thesis by linarith
    next
      case ne: False
      with False have "current_words + ?w \<le> target" by simp
      then show ?thesis by linarith
    qed
    then have b: "current @ [sent] \<noteq> [] \<longrightarrow>
        (\<exists>s \<in> S. current_words + ?w \<le> target + int (length (split s)))"
      using sent by blast
    from Cons.IH[OF cw rest b Cons.prems(4)] show ?thesis
      by (simp only: chunk_loop_grow[OF False])
  qed
qed

lemma chunk_loop_mono:
  "set chunks \<subseteq> set (chunk_loop target overlap chunks current current_words rest)"
proof (induction rest arbitrary: chunks current current_words)
  case Nil
  then show ?case by auto
next
  case (Cons sent rest)
  show ?case
  proof (cases "current_words + int (length (split sent)) > target \<and> current \<noteq> []")
    case True
    then show ?thesis
      using Cons[of "chunks @ [join '' '' current]"] by (auto simp: chunk_loop_close simp del: chunk_loop.simps)
  next
    case False
    show ?thesis
      using Cons[of chunks] by (simp only: chunk_loop_grow[OF False])
  qed
qed

lemma chunk_loop_keeps:
  "\<forall>s \<in> set current \<union> set rest.
     \<exists>c \<in> set (chunk_loop target overlap chunks current current_words rest).
       sublist (split s) (split c)"
proof (induction rest arbitrary: chunks current current_words)
  case Nil
  show ?case
  proof
    fix s assume "s \<in> set current \<union> set []"
    then have s: "s \<in> set current" by simp
    then have "current \<noteq> []" by auto
    moreover have "sublist (split s) (split (join '' '' current))"
      using s by (simp add: split_join sublist_concat_member)
    ultimately show "\<exists>c \<in> set (chunk_loop target overlap chunks current current_words []).
        sublist (split s) (split c)"
      by auto
  qed
next
  case (Cons sent rest)
  let ?w = "int (length (split sent))"
  show ?case
  proof
    fix s assume s: "s \<in> set current \<union> set (sent # rest)"
    show "\<exists>c \<in> set (chunk_loop target overlap chunks current current_words (sent # rest)).
        sublist (split s) (split c)"
    proof (cases "current_words + ?w > target \<and> current \<noteq> []")
      case True
      let ?chunks = "chunks @ [join '' '' current]"
      let ?tail = "join '' '' (last_n overlap (split (join '' '' current)))"
      let ?cur = "if overlap > 0 then [?tail, sent] else [sent]"
      let ?cw = "if overlap > 0 then int (length (split ?tail)) + ?w else ?w"
      have eq: "chunk_loop target overlap chunks current current_words (sent # rest)
                  = chunk_loop target overlap ?chunks ?cur ?cw rest"
        using True by (simp add: chunk_loop_close del: chunk_loop.simps)
      show ?thesis
      proof (cases "s \<in> set current")
        case True
        then have "sublist (split s) (split (join '' '' current))"
          by (simp add: split_join sublist_concat_member)
        moreover have "join '' '' current \<in> set (chunk_loop target overlap ?chunks ?cur ?cw rest)"
          using chunk_loop_mono[of ?chunks target overlap ?cur ?cw rest] by auto
        ultimately show ?thesis unfolding eq by blast
      next
        case False
        with s have "s \<in> set ?cur \<union> set rest" by auto
        with Cons[of ?cur ?chunks ?cw] show ?thesis unfolding eq by blast
      qed
    next
      case False
      have eq: "chunk_loop target overlap chunks current current_words (sent # rest)
                  = chunk_loop target overlap chunks (current @ [sent]) (current_words + ?w) rest"
        by (rule chunk_loop_grow[OF False])
      from s have "s \<in> set (current @ [sent]) \<union> set rest" by auto
      with Cons[of "current @ [sent]" chunks "current_words + ?w"] show ?thesis
        unfolding eq by blast
    qed
  qed
qed

lemma suffix_split_last:
  "current \<noteq> [] \<Longrightarrow> suffix (split (last current)) (split (join '' '' current))"
proof -
  assume "current \<noteq> []"
  then have "current = butlast current @ [last current]" by simp
  then have "concat (map split current)
               = concat (map split (butlast current @ [last current]))"
    by simp
  then have "concat (map split current)
               = concat (map split (butlast current)) @ split (last current)"
    by (simp only: map_append concat_append) simp
  then show ?thesis
    by (simp add: split_join suffix_def)
qed

lemma chunk_loop_last:
  "current @ rest \<noteq> [] \<Longrightarrow>
   chunk_loop target overlap chunks current current_words rest \<noteq> []
   \<and> suffix (split (last (current @ rest)))
        (split (last (chunk_loop target overlap chunks current current_words rest)))"
proof (induction rest arbitrary: chunks current current_words)
  case Nil
  then show ?case by (simp add: suffix_split_last)
next
  case (Cons sent rest)
  let ?w = "int (length (split sent))"
  let ?tail = "join '' '' (last_n overlap (split (join '' '' current)))"
  have l1: "last ([?tail, sent] @ rest) = last (current @ sent # rest)"
    and l2: "last ([sent] @ rest) = last (current @ sent # rest)"
    and l3: "last ((current @ [sent]) @ rest) = last (current @ sent # rest)"
    by simp_all
  show ?case
  proof (cases "current_words + ?w > target \<and> current \<noteq> []")
    case True
    show ?thesis
    proof (cases "overlap > 0")
      case pos: True
      from Cons.IH[of "[?tail, sent]" "chunks @ [join '' '' current]"
          "int (length (split ?tail)) + ?w"]
      show ?thesis using True pos unfolding l1[symmetric] by (simp add: chunk_loop_close del: chunk_loop.simps)
    next
      case zero: False
      from Cons.IH[of "[sent]" "chunks @ [join '' '' current]" ?w]
      show ?thesis using True zero unfolding l2[symmetric] by (simp add: chunk_loop_close del: chunk_loop.simps)
    qed
  next
    case False
    have ne: "(current @ [sent]) @ rest \<noteq> []" by simp
    from Cons.IH[OF ne, of chunks "current_words + ?w"]
    show ?thesis unfolding l3[symmetric]
      by (simp add: chunk_loop_grow[OF False] del: chunk_loop.simps)
  qed
qed

lemma normalize_nonempty_iff:
  "normalize_whitespace (Some c) \<noteq> [] \<longleftrightarrow> split c \<noteq> []"
proof
  assume "normalize_whitespace (Some c) \<noteq> []"
  then have "\<not> (\<forall>x \<in> set c. isspace x)"
    using normalize_blank[of "Some c"] by auto
  then show "split c \<noteq> []"
    by (simp add: split_Nil_iff)
next
  assume "split c \<noteq> []"
  then have "split (normalize_whitespace (Some c)) \<noteq> []"
    by (simp add: split_normalize)
  then show "normalize_whitespace (Some c) \<noteq> []"
    by (auto simp: split_Nil)
qed

lemma last_map_filter:
  assumes "xs \<noteq> []" and "P (last xs)"
  shows "map f (filter P xs) \<noteq> [] \<and> last (map f (filter P xs)) = f (last xs)"
proof -
  from assms(1) have "xs = butlast xs @ [last xs]" by simp
  then have "filter P xs = filter P (butlast xs @ [last xs])"
    by simp
  then have "filter P xs = filter P (butlast xs) @ [last xs]"
    using assms(2) by (simp only: filter_append filter.simps if_True)
  then show ?thesis by simp
qed


lemma chunk_by_words_raw:
  "chunk_by_words sentences target overlap =
     map (\<lambda>c. normalize_whitespace (Some c))
       (filter (\<lambda>c. split c \<noteq> []) (chunk_loop target overlap [] [] 0 sentences))"
  by (simp add: chunk_by_words_def Let_def normalize_nonempty_iff)

text \<open>
  C4. For \<open>0 \<le> overlap_words < target_chunk_words\<close>: the word count of every chunk is at
  most \<open>target_chunk_words\<close> plus the word count of one of the input sentences; the words
  of every input sentence that has a word stand together, in order, inside one chunk; when
  the last sentence has a word there is a last chunk and it ends with the words of that
  sentence, whatever its size; and no chunk is empty or whitespace only.
\<close>

theorem chunks_keep_sentences_whole:
  assumes "0 \<le> overlap_words" and "overlap_words < target_chunk_words"
  shows "(\<forall>c \<in> set (chunk_by_words sentences target_chunk_words overlap_words).
            \<exists>s \<in> set sentences.
              int (length (split c)) \<le> target_chunk_words + int (length (split s)))
         \<and> (\<forall>s \<in> set sentences. split s \<noteq> [] \<longrightarrow>
              (\<exists>c \<in> set (chunk_by_words sentences target_chunk_words overlap_words).
                 sublist (split s) (split c)))
         \<and> (sentences \<noteq> [] \<and> split (last sentences) \<noteq> [] \<longrightarrow>
              chunk_by_words sentences target_chunk_words overlap_words \<noteq> []
              \<and> suffix (split (last sentences))
                   (split (last (chunk_by_words sentences target_chunk_words overlap_words))))
         \<and> (\<forall>c \<in> set (chunk_by_words sentences target_chunk_words overlap_words).
              c \<noteq> [] \<and> split c \<noteq> [])"
proof -
  let ?raw = "chunk_loop target_chunk_words overlap_words [] [] 0 sentences"
  let ?N = "\<lambda>c. normalize_whitespace (Some c)"
  let ?out = "chunk_by_words sentences target_chunk_words overlap_words"
  have out: "?out = map ?N (filter (\<lambda>c. split c \<noteq> []) ?raw)"
    by (rule chunk_by_words_raw)
  have raw_bound: "\<forall>c \<in> set ?raw. \<exists>s \<in> set sentences.
      int (length (split c)) \<le> target_chunk_words + int (length (split s))"
    by (rule chunk_loop_bound[OF assms]) simp_all
  have a: "\<forall>c \<in> set ?out. \<exists>s \<in> set sentences.
      int (length (split c)) \<le> target_chunk_words + int (length (split s))"
    using raw_bound by (auto simp: out split_normalize)
  have b: "\<forall>s \<in> set sentences. split s \<noteq> [] \<longrightarrow>
      (\<exists>c \<in> set ?out. sublist (split s) (split c))"
  proof (intro ballI impI)
    fix s assume s: "s \<in> set sentences" and w: "split s \<noteq> []"
    from chunk_loop_keeps[of "[]" sentences target_chunk_words overlap_words "[]" 0] s
    obtain c where c: "c \<in> set ?raw" and sub: "sublist (split s) (split c)"
      by auto
    from sub w have "split c \<noteq> []" by auto
    with c have "?N c \<in> set ?out" by (simp add: out)
    moreover have "sublist (split s) (split (?N c))"
      using sub by (simp add: split_normalize)
    ultimately show "\<exists>c \<in> set ?out. sublist (split s) (split c)" by blast
  qed
  have c: "sentences \<noteq> [] \<and> split (last sentences) \<noteq> [] \<longrightarrow>
      ?out \<noteq> [] \<and> suffix (split (last sentences)) (split (last ?out))"
  proof
    assume h: "sentences \<noteq> [] \<and> split (last sentences) \<noteq> []"
    then have "[] @ sentences \<noteq> []" by simp
    from chunk_loop_last[OF this, of target_chunk_words overlap_words "[]" 0]
    have ne: "?raw \<noteq> []" and suf: "suffix (split (last sentences)) (split (last ?raw))"
      by simp_all
    from suf h have keep: "split (last ?raw) \<noteq> []"
      by (auto simp: suffix_def)
    from last_map_filter[of ?raw "\<lambda>c. split c \<noteq> []" ?N, OF ne keep]
    have "?out \<noteq> []" and "last ?out = ?N (last ?raw)"
      by (simp_all add: out)
    with suf show "?out \<noteq> [] \<and> suffix (split (last sentences)) (split (last ?out))"
      by (simp add: split_normalize)
  qed
  have d: "\<forall>c \<in> set ?out. c \<noteq> [] \<and> split c \<noteq> []"
    by (auto simp: out split_normalize normalize_nonempty_iff)
  from a b c d show ?thesis by blast
qed

text \<open>
  With a target of 5 words and an overlap of 2, the sentences \<open>a b c\<close>, \<open>d e f g\<close>, a
  blank one and \<open>h i\<close> give three chunks: the second has 6 words, one more than the target
  and fewer than the target plus the 4 words of \<open>d e f g\<close>, which it holds whole behind the
  overlap \<open>b c\<close>; the last, of 4 words, ends with \<open>h i\<close>. A blank sentence alone gives no
  chunk.
\<close>

theorem chunks_keep_sentences_whole_witness:
  "(0::int) \<le> 2 \<and> (2::int) < 5
   \<and> chunk_by_words [''a b c'', ''d e f g'', ''  '', ''h i''] 5 2
       = [''a b c'', ''b c d e f g'', ''f g h i'']
   \<and> (\<exists>c \<in> set (chunk_by_words [''a b c'', ''d e f g'', ''  '', ''h i''] 5 2).
         sublist (split ''d e f g'') (split c))
   \<and> suffix (split ''h i'')
        (split (last (chunk_by_words [''a b c'', ''d e f g'', ''  '', ''h i''] 5 2)))
   \<and> int (length (split ''b c d e f g'')) = 6
   \<and> chunk_by_words [''  ''] 5 2 = []"
proof -
  let ?ss = "[''a b c'', ''d e f g'', ''  '', ''h i'']"
  have h1: "(0::int) \<le> 2" and h2: "(2::int) < 5" by simp_all
  note facts = chunks_keep_sentences_whole[OF h1 h2, of ?ss]
  have e: "chunk_by_words ?ss 5 2 = [''a b c'', ''b c d e f g'', ''f g h i'']"
    by code_simp
  have w: "split ''d e f g'' \<noteq> []" and l: "split (last ?ss) \<noteq> []"
    by code_simp+
  from facts w have b: "\<exists>c \<in> set (chunk_by_words ?ss 5 2). sublist (split ''d e f g'') (split c)"
    by simp
  from facts l have c: "suffix (split ''h i'') (split (last (chunk_by_words ?ss 5 2)))"
    by simp
  have n: "int (length (split ''b c d e f g'')) = 6"
    by code_simp
  have z: "chunk_by_words [''  ''] 5 2 = []"
    by code_simp
  from h1 h2 e b c n z show ?thesis
    by (intro conjI)
qed

end
